theory Spec2Isabelle
  imports Complex_Main "HOL-Library.Word" "HOL-Library.Signed_Division"
    "HOL-Library.Monad_Syntax"
begin

unbundle bit_operations_syntax

section \<open>The paged storage manager (src/store/db.go)\<close>

subsection \<open>Errors and results\<close>

text \<open>
  The sentinel errors of the package, and \<open>ErrMsg\<close> for the errors built with
  \<open>fmt.Errorf\<close>. A Go function that returns \<open>(x, error)\<close> and may panic has three
  outcomes.
\<close>

datatype error =
  ErrInvalid | ErrVersionMismatch | ErrChecksum | ErrNotFound | ErrDatabaseNotOpen
  | ErrMsg string

datatype 'a result = Ok 'a | Err error | Panic

type_synonym byte = "8 word"

subsection \<open>Meta pages\<close>

text \<open>
  \<open>pgid\<close> and \<open>txid\<close> are declared outside the two source files; \<open>txid\<close> holds
  \<open>0xFFFFFFFFFFFFFFFF\<close> in \<open>beginRWTx\<close>, so it is an unsigned 64-bit integer, and
  \<open>pgid\<close> is taken to be one too.
\<close>

type_synonym pgid = "64 word"
type_synonym txid = "64 word"

record meta =
  magic :: "32 word"
  version :: "32 word"
  pageSize :: "32 word"
  flags :: "32 word"
  freelist :: pgid
  data :: pgid
  pgid :: pgid
  txid :: txid
  checksum :: "64 word"

definition magic_const :: "32 word" where
  "magic_const = 0xED0CDAED"

definition version_const :: "32 word" where
  "version_const = 1"

definition maxMmapStep :: int where
  "maxMmapStep = 2 ^ 30"

text \<open>
  \<open>sum64\<close> hashes the first \<open>unsafe.Offsetof(meta{}.checksum)\<close> = 48 bytes of the
  struct in memory with FNV-1a (hash/fnv, \<open>New64a\<close>): the four 32-bit fields and the
  four 64-bit fields, each in the byte order of the machine, here little-endian.
\<close>

definition le32 :: "32 word \<Rightarrow> byte list" where
  "le32 w = [ucast w, ucast (drop_bit 8 w), ucast (drop_bit 16 w), ucast (drop_bit 24 w)]"

definition le64 :: "64 word \<Rightarrow> byte list" where
  "le64 w = [ucast w, ucast (drop_bit 8 w), ucast (drop_bit 16 w), ucast (drop_bit 24 w),
             ucast (drop_bit 32 w), ucast (drop_bit 40 w), ucast (drop_bit 48 w),
             ucast (drop_bit 56 w)]"

definition meta_bytes :: "meta \<Rightarrow> byte list" where
  "meta_bytes m = le32 (magic m) @ le32 (version m) @ le32 (pageSize m) @ le32 (flags m)
                  @ le64 (freelist m) @ le64 (data m) @ le64 (pgid m) @ le64 (txid m)"

definition fnv64a_step :: "64 word \<Rightarrow> byte \<Rightarrow> 64 word" where
  "fnv64a_step h c = (h XOR ucast c) * 0x100000001b3"

definition fnv64a :: "byte list \<Rightarrow> 64 word" where
  "fnv64a bs = foldl fnv64a_step 0xcbf29ce484222325 bs"

definition sum64 :: "meta \<Rightarrow> 64 word" where
  "sum64 m = fnv64a (meta_bytes m)"

text \<open>\<open>validate\<close> returns \<open>nil\<close> (\<open>None\<close>) or the first error of its chain.\<close>

definition validate :: "meta \<Rightarrow> error option" where
  "validate m =
     (if magic m \<noteq> magic_const then Some ErrInvalid
      else if version m \<noteq> version_const then Some ErrVersionMismatch
      else if checksum m \<noteq> 0 \<and> checksum m \<noteq> sum64 m then Some ErrChecksum
      else None)"

subsection \<open>The database handle\<close>

text \<open>
  The fields of \<open>DB\<close> that the functions below read or write. \<open>meta0\<close> and \<open>meta1\<close>
  are pointers, \<open>nil\<close> until \<open>mmap\<close> has run. \<open>store\<close> stands for the file, the
  mapped bytes and the node cache, which only the cursor, the transaction and the
  system calls (all outside the two source files) touch. The three locks are not
  modelled: every function here is followed on a single thread.
\<close>

record ('tx, 's) DB =
  opened :: bool
  meta0 :: "meta option"
  meta1 :: "meta option"
  db_pageSize :: int
  rwtx :: "'tx option"
  txs :: "'tx list"
  store :: 's

subsection \<open>mmapSize\<close>

text \<open>
  Go's \<open>int\<close> and \<open>int64\<close> are 64-bit two's complement: \<open>wrap64\<close> is written at every
  addition and multiplication; \<open>/\<close> and \<open>%\<close> truncate towards zero (\<open>sdiv\<close>,
  \<open>smod\<close>) and panic on a zero divisor. \<open>maxMapSize\<close> is a platform constant
  declared outside the two source files: it is a parameter. The source's variable
  \<open>size\<close> is written \<open>siz\<close>.
\<close>

definition wrap64 :: "int \<Rightarrow> int" where
  "wrap64 x = signed_take_bit 63 x"

function double_loop :: "int \<Rightarrow> nat \<Rightarrow> int option" where
  "double_loop siz i =
     (if i \<le> 30 then (if siz \<le> 2 ^ i then Some (2 ^ i) else double_loop siz (i + 1))
      else None)"
  by pat_completeness auto
termination
  by (relation "measure (\<lambda>(siz, i). 31 - i)") auto

definition mmapSize :: "int \<Rightarrow> int \<Rightarrow> int \<Rightarrow> int result" where
  "mmapSize maxMapSize pgsz siz =
     (case double_loop siz 15 of
        Some r \<Rightarrow> Ok r
      | None \<Rightarrow>
          if siz > maxMapSize then Err (ErrMsg ''mmap too large'')
          else
            let sz = siz;
                remainder = sz smod maxMmapStep;
                sz = (if remainder > 0 then wrap64 (sz + wrap64 (maxMmapStep - remainder)) else sz)
            in if pgsz = 0 then Panic
               else
                 let sz = (if sz smod pgsz \<noteq> 0
                           then wrap64 (wrap64 (sz sdiv pgsz + 1) * pgsz) else sz);
                     sz = (if sz > maxMapSize then maxMapSize else sz)
                 in Ok sz)"

subsection \<open>mmap and meta\<close>

text \<open>
  What \<open>mmap\<close> gets from the platform: the result of \<open>file.Stat\<close> (the file size, or
  \<open>None\<close> for an error), whether \<open>munmap\<close> and the \<open>mmap\<close> system call succeed, and
  the meta pages found at page 0 and page 1 of the mapped file.
\<close>

record platform =
  stat_size :: "int option"
  munmap_ok :: bool
  mmap_ok :: bool
  page_meta0 :: meta
  page_meta1 :: meta

definition mmap :: "int \<Rightarrow> platform \<Rightarrow> ('tx, 's) DB \<Rightarrow> int \<Rightarrow> unit result \<times> ('tx, 's) DB" where
  "mmap maxMapSize pf db minsz =
     (case stat_size pf of
        None \<Rightarrow> (Err (ErrMsg ''mmap stat error''), db)
      | Some info_size \<Rightarrow>
          if info_size < wrap64 (db_pageSize db * 2) then (Err (ErrMsg ''file size too small''), db)
          else
            let siz = info_size;
                siz = (if siz < minsz then minsz else siz)
            in case mmapSize maxMapSize (db_pageSize db) siz of
                 Panic \<Rightarrow> (Panic, db)
               | Err e \<Rightarrow> (Err e, db)
               | Ok siz \<Rightarrow>
                   if \<not> munmap_ok pf then (Err (ErrMsg ''unmap error''), db)
                   else if \<not> mmap_ok pf then (Err (ErrMsg ''mmap error''), db)
                   else
                     let db = db\<lparr>meta0 := Some (page_meta0 pf), meta1 := Some (page_meta1 pf)\<rparr>;
                         err0 = validate (page_meta0 pf);
                         err1 = validate (page_meta1 pf)
                     in if err0 \<noteq> None \<and> err1 \<noteq> None then (Err (the err0), db)
                        else (Ok (), db))"

text \<open>
  \<open>db.meta()\<close>: \<open>metaA\<close> is the meta with the higher transaction id. Reading
  \<open>txid\<close> through a \<open>nil\<close> pointer panics, as the final \<open>panic\<close> does.
\<close>

definition meta_of :: "('tx, 's) DB \<Rightarrow> meta result" where
  "meta_of db =
     (case (meta0 db, meta1 db) of
        (Some m0, Some m1) \<Rightarrow>
          let metaA = (if txid m1 > txid m0 then m1 else m0);
              metaB = (if txid m1 > txid m0 then m0 else m1)
          in if validate metaA = None then Ok metaA
             else if validate metaB = None then Ok metaB
             else Panic
      | _ \<Rightarrow> Panic)"

text \<open>
  The rounding of the specification: \<open>round_up m x\<close> is \<open>x\<close> rounded up to a
  multiple of \<open>m\<close>.
\<close>

definition round_up :: "int \<Rightarrow> int \<Rightarrow> int" where
  "round_up m x = (if x mod m = 0 then x else (x div m + 1) * m)"

section \<open>The hierarchical time-bucket tree (src/storage/node.go)\<close>

subsection \<open>Levels and flags\<close>

definition LevelRoot :: "16 word" where "LevelRoot = 0x0001"
definition LevelYear :: "16 word" where "LevelYear = 0x0002"
definition LevelMonth :: "16 word" where "LevelMonth = 0x0004"
definition LevelDay :: "16 word" where "LevelDay = 0x0008"
definition LevelHour :: "16 word" where "LevelHour = 0x0010"
definition LevelMinute :: "16 word" where "LevelMinute = 0x0020"
definition LevelSecond :: "16 word" where "LevelSecond = 0x0040"
definition LevelMSecond :: "16 word" where "LevelMSecond = 0x0080"
definition LevelUSecond :: "16 word" where "LevelUSecond = 0x0100"
definition LevelNSecond :: "16 word" where "LevelNSecond = 0x0200"

definition LevelFlag :: "16 word" where "LevelFlag = 0x0FFF"
definition LeafFlag :: "16 word" where "LeafFlag = 0x3000"
definition InteriorChunkFlag :: "16 word" where "InteriorChunkFlag = 0x1000"
definition LeafChunkFlag :: "16 word" where "LeafChunkFlag = 0x2000"

definition levels :: "16 word list" where
  "levels = [LevelRoot, LevelYear, LevelMonth, LevelDay, LevelHour, LevelMinute, LevelSecond,
             LevelMSecond, LevelUSecond, LevelNSecond]"

subsection \<open>Nodes\<close>

text \<open>
  \<open>float64\<close> is the type parameter \<open>'f\<close>: the code only adds and compares floats
  (\<open>+\<close> and \<open><\<close> of the classes \<open>plus\<close> and \<open>ord\<close>, which assume nothing), and
  every property below that needs a law of the order states it as a hypothesis.
  \<open>int64\<close> is a 64-bit word read with \<open>sint\<close>. The fields \<open>sum\<close>, \<open>max\<close>, \<open>min\<close>
  and \<open>last\<close> of \<open>Value\<close> carry the suffix \<open>_v\<close>, and \<open>key\<close> and \<open>value\<close> of
  \<open>nodePointer\<close> the prefix \<open>np_\<close>.

  \<open>Point\<close> and \<open>Time\<close> are declared outside the source file: \<open>Point\<close> has the
  fields \<open>Timestamp\<close> and \<open>Value\<close> that the code reads and writes; of \<open>Time\<close> the
  code uses the field \<open>TS\<close>, the method \<open>Level()\<close> and
  \<open>Timestamp(level).UnixNano()\<close>, which are the three fields of the record.

  The back-references \<open>db\<close> and \<open>parent\<close> of a node are left out: no function below
  reads them, except \<open>n.db.writeChunk\<close> and \<open>n.db.root\<close>, which are parameters.
  A \<open>nil\<close> child pointer is \<open>None\<close>.
\<close>

type_synonym int64 = "64 word"

record 'f Value =
  sum_v :: 'f
  max_v :: 'f
  min_v :: 'f
  first :: 'f
  last_v :: 'f
  count :: "16 word"

record 'f Point =
  Timestamp :: int64
  Value :: "string \<rightharpoonup> 'f"

record Time =
  TS :: int64
  Level :: "16 word"
  Timestamp_UnixNano :: "16 word \<Rightarrow> int64"

datatype 'f node =
  Node (level: "16 word") (key: int64) (isLeaf: bool) (dirty: int)
       (pointers: "'f nodePointer list") (points: "'f Point list")
and 'f nodePointer =
  NodePointer (np_key: int64) (pos: int64) (pointer: "'f node option")
              (np_value: "string \<rightharpoonup> 'f Value")

definition newLeafNode :: "'f node" where
  "newLeafNode = Node 0 0 True 0 [] []"

definition newInteriorNode :: "'f node" where
  "newInteriorNode = Node 0 0 False (- 1) [] []"

subsection \<open>sort.Search\<close>

text \<open>
  The binary search of Go's standard library: the loop of \<open>sort.Search\<close>, which calls
  \<open>f\<close> only at indices \<open>h\<close> with \<open>i \<le> h < j\<close>.
\<close>

function Search_loop :: "(nat \<Rightarrow> bool) \<Rightarrow> nat \<Rightarrow> nat \<Rightarrow> nat" where
  "Search_loop f i j =
     (if i < j
      then let h = (i + j) div 2
           in if \<not> f h then Search_loop f (h + 1) j else Search_loop f i h
      else i)"
  by pat_completeness auto
termination
  by (relation "measure (\<lambda>(f, i, j). j - i)") auto

definition Search :: "nat \<Rightarrow> (nat \<Rightarrow> bool) \<Rightarrow> nat" where
  "Search n f = Search_loop f 0 n"

subsection \<open>insertPoint\<close>

text \<open>
  \<open>n.points[index]\<close> is read before anything is appended: an index equal to the
  length panics (\<open>None\<close>). \<open>append\<close>, \<open>copy\<close> and the assignment at \<open>index\<close>
  together insert the new point before position \<open>index\<close>.
\<close>

definition insertPoint :: "'f node \<Rightarrow> Time \<Rightarrow> (string \<rightharpoonup> 'f) \<Rightarrow> 'f node option" where
  "insertPoint n t v =
     (let index = Search (length (points n))
                    (\<lambda>i. sint (TS t) \<le> sint (Timestamp (points n ! i)))
      in if length (points n) \<le> index then None
         else if Timestamp (points n ! index) = TS t
         then Some (Node (level n) (key n) (isLeaf n) (dirty n) (pointers n)
                      ((points n)[index := (points n ! index)\<lparr>Value := v\<rparr>]))
         else Some (Node (level n) (key n) (isLeaf n) (dirty n) (pointers n)
                      (take index (points n) @ [\<lparr>Timestamp = TS t, Value = v\<rparr>]
                       @ drop index (points n))))"

subsection \<open>insertNode\<close>

text \<open>
  \<open>_assert\<close> panics when its condition is false. The recursion on the fresh interior
  node does not end when \<open>n.level\<close> is 0 and the sample's level is not: the function
  is partial, and \<open>None\<close> is a panic or a recursion without end.
\<close>

definition insert_pointer ::
  "'f nodePointer list \<Rightarrow> int64 \<Rightarrow> nat \<times> 'f nodePointer list" where
  "insert_pointer ps ts =
     (let index = Search (length ps) (\<lambda>i. sint ts \<le> sint (np_key (ps ! i)))
      in if length ps = 0 \<or> length ps \<le> index \<or> np_key (ps ! index) \<noteq> ts
         then (index, take index ps @ [NodePointer 0 0 None Map.empty] @ drop index ps)
         else (index, ps))"

partial_function (option) insertNode ::
  "'f node \<Rightarrow> Time \<Rightarrow> (string \<rightharpoonup> 'f) \<Rightarrow> 'f node option" where
  "insertNode n t v =
     (if \<not> level n \<le> drop_bit 2 (Level t) then None
      else if drop_bit 2 (Level t) = level n
      then
        (let leafNode = Node (push_bit 1 (level n)) 0 True 0 []
                          [\<lparr>Timestamp = TS t, Value = v\<rparr>];
             (index, ps) = insert_pointer (pointers n) (TS t);
             np = NodePointer (Timestamp_UnixNano t (push_bit 1 (level n))) 0
                    (Some leafNode) Map.empty
         in Some (Node (level n) (key n) (isLeaf n) (int index) (ps[index := np]) (points n)))
      else
        Option.bind (insertNode (Node (push_bit 1 (level n)) 0 False (- 1) [] []) t v)
          (\<lambda>interiorNode.
             let (index, ps) = insert_pointer (pointers n) (TS t);
                 np = NodePointer (Timestamp_UnixNano t (push_bit 1 (level n))) 0
                        (Some interiorNode) Map.empty
             in Some (Node (level n) (key n) (isLeaf n) (int index) (ps[index := np])
                        (points n))))"

subsection \<open>reduce\<close>

text \<open>
  The inner loop \<open>for k, v := range m\<close> visits every key of \<open>m\<close> once, in an order
  that Go leaves open, and the step for \<open>k\<close> reads and writes \<open>value[k]\<close> only: the
  loop is the pointwise update of \<open>value\<close> at the keys of \<open>m\<close>, whatever the order.
\<close>

definition leaf_entry :: "nat \<Rightarrow> nat \<Rightarrow> 'f::{plus,ord} \<Rightarrow> 'f Value option \<Rightarrow> 'f Value" where
  "leaf_entry len index v cur =
     (case cur of
        None \<Rightarrow> \<lparr>sum_v = v, max_v = v, min_v = v, first = v, last_v = v, count = 1\<rparr>
      | Some vk0 \<Rightarrow>
          let vk = vk0\<lparr>sum_v := sum_v vk0 + v\<rparr>;
              vk = (if max_v vk < v then vk\<lparr>max_v := v\<rparr>
                    else if v < min_v vk0 then vk\<lparr>min_v := v\<rparr> else vk);
              vk = (if int index = int len - 1 then vk\<lparr>last_v := v\<rparr> else vk)
          in vk\<lparr>count := count vk + 1\<rparr>)"

definition leaf_point ::
  "nat \<Rightarrow> nat \<Rightarrow> 'f::{plus,ord} Point \<Rightarrow> (string \<rightharpoonup> 'f Value) \<Rightarrow> (string \<rightharpoonup> 'f Value)" where
  "leaf_point len index point val =
     (\<lambda>k. case Value point k of
             None \<Rightarrow> val k
           | Some v \<Rightarrow> Some (leaf_entry len index v (val k)))"

fun leaf_loop ::
  "nat \<Rightarrow> nat \<Rightarrow> 'f::{plus,ord} Point list \<Rightarrow> (string \<rightharpoonup> 'f Value) \<Rightarrow> (string \<rightharpoonup> 'f Value)" where
  "leaf_loop len index [] val = val"
| "leaf_loop len index (point # rest) val =
     leaf_loop len (index + 1) rest (leaf_point len index point val)"

definition interior_entry ::
  "nat \<Rightarrow> nat \<Rightarrow> 'f::{plus,ord} Value \<Rightarrow> 'f Value option \<Rightarrow> 'f Value" where
  "interior_entry len index v cur =
     (case cur of
        None \<Rightarrow> v
      | Some vk0 \<Rightarrow>
          let vk = vk0\<lparr>sum_v := sum_v vk0 + sum_v v\<rparr>;
              vk = (if max_v vk < max_v v then vk\<lparr>max_v := max_v v\<rparr> else vk);
              vk = (if min_v vk0 < min_v v then vk\<lparr>min_v := min_v v\<rparr> else vk);
              vk = (if int index = int len - 1 then vk\<lparr>last_v := last_v v\<rparr> else vk)
          in vk\<lparr>count := count vk + count v\<rparr>)"

definition interior_pointer ::
  "nat \<Rightarrow> nat \<Rightarrow> 'f::{plus,ord} nodePointer \<Rightarrow> (string \<rightharpoonup> 'f Value)
     \<Rightarrow> (string \<rightharpoonup> 'f Value)" where
  "interior_pointer len index p val =
     (\<lambda>k. case np_value p k of
             None \<Rightarrow> val k
           | Some v \<Rightarrow> Some (interior_entry len index v (val k)))"

fun interior_loop ::
  "nat \<Rightarrow> nat \<Rightarrow> 'f::{plus,ord} nodePointer list \<Rightarrow> (string \<rightharpoonup> 'f Value)
     \<Rightarrow> (string \<rightharpoonup> 'f Value)" where
  "interior_loop len index [] val = val"
| "interior_loop len index (p # rest) val =
     interior_loop len (index + 1) rest (interior_pointer len index p val)"

text \<open>
  \<open>reduce\<close> returns the aggregate and leaves the refreshed cached value in the dirty
  pointer, all the way down: the result is the node after the call and the aggregate,
  or \<open>None\<close> for a panic (\<open>pointers[dirty]\<close> out of range, or a \<open>nil\<close> child).
\<close>

function reduce :: "'f::{plus,ord} node \<Rightarrow> ('f node \<times> (string \<rightharpoonup> 'f Value)) option" where
  "reduce n =
     (if isLeaf n then Some (n, leaf_loop (length (points n)) 0 (points n) Map.empty)
      else if dirty n < 0 \<or> int (length (pointers n)) \<le> dirty n then None
      else
        let p = pointers n ! nat (dirty n)
        in case pointer p of
             None \<Rightarrow> None
           | Some child \<Rightarrow>
               (case reduce child of
                  None \<Rightarrow> None
                | Some (child', cv) \<Rightarrow>
                    let ps = (pointers n)[nat (dirty n) :=
                                NodePointer (np_key p) (pos p) (Some child') cv]
                    in Some (Node (level n) (key n) (isLeaf n) (dirty n) ps (points n),
                             interior_loop (length ps) 0 ps Map.empty)))"
  by pat_completeness auto
termination
proof (relation "measure size", goal_cases)
  case 1
  show ?case by simp
next
  case (2 n p child)
  obtain l k b d ps pts where n: "n = Node l k b d ps pts" by (cases n)
  have "nat d < length ps" using 2 n by auto
  then have "p \<in> set ps" using 2 n by simp
  then have a: "size p \<le> size_list size ps" by (simp add: size_list_estimation')
  obtain pk pp pm where p: "p = NodePointer pk pp (Some child) pm"
    using 2(4) by (cases p) simp
  show ?case using a by (simp add: n p)
qed

subsection \<open>The leaf fold of the specification\<close>

text \<open>
  The leaf aggregate in the words of the specification, for one metric \<open>k\<close>: the
  first point that carries \<open>k\<close> initialises the six fields; every later point that
  carries it adds to the sum, replaces the maximum when larger and the minimum when
  smaller, counts one more, and sets \<open>last\<close> when it is the final point of the leaf.
\<close>

definition spec_leaf_step :: "bool \<Rightarrow> 'f::{plus,ord} \<Rightarrow> 'f Value option \<Rightarrow> 'f Value" where
  "spec_leaf_step final v cur =
     (case cur of
        None \<Rightarrow> \<lparr>sum_v = v, max_v = v, min_v = v, first = v, last_v = v, count = 1\<rparr>
      | Some a \<Rightarrow>
          \<lparr>sum_v = sum_v a + v,
           max_v = (if max_v a < v then v else max_v a),
           min_v = (if v < min_v a then v else min_v a),
           first = first a,
           last_v = (if final then v else last_v a),
           count = count a + 1\<rparr>)"

fun spec_leaf_metric ::
  "string \<Rightarrow> 'f::{plus,ord} Point list \<Rightarrow> 'f Value option \<Rightarrow> 'f Value option" where
  "spec_leaf_metric k [] cur = cur"
| "spec_leaf_metric k (point # rest) cur =
     spec_leaf_metric k rest
       (case Value point k of
          None \<Rightarrow> cur
        | Some v \<Rightarrow> Some (spec_leaf_step (rest = []) v cur))"

text \<open>The minimum of an aggregate is not above its maximum.\<close>

definition ordered_v :: "'f::{plus,ord} Value option \<Rightarrow> bool" where
  "ordered_v cur = (case cur of None \<Rightarrow> True | Some a \<Rightarrow> min_v a = max_v a \<or> min_v a < max_v a)"

subsection \<open>flush and the binary encoding\<close>

text \<open>
  The codec helpers \<open>encodeUint16\<close>, \<open>decodeUint16\<close>, \<open>encodeInt64\<close>,
  \<open>decodeInt64\<close>, \<open>encodeFloat64\<close>, \<open>decodeFloat64\<close>, \<open>Point.encode\<close> and
  \<open>decodePoint\<close> are declared outside the source file: they are the fields of a
  record of parameters. \<open>range_value\<close> is the order in which \<open>range\<close> visits the
  entries of a metric map, which Go leaves open.
\<close>

record 'f codec =
  encodeUint16 :: "16 word \<Rightarrow> byte list"
  decodeUint16 :: "byte list \<Rightarrow> 16 word"
  encodeInt64 :: "int64 \<Rightarrow> byte list"
  decodeInt64 :: "byte list \<Rightarrow> int64"
  encodeFloat64 :: "'f \<Rightarrow> byte list"
  decodeFloat64 :: "byte list \<Rightarrow> 'f"
  Point_encode :: "'f Point \<Rightarrow> byte list"
  decodePoint :: "byte list \<Rightarrow> error + 'f Point"
  range_value :: "(string \<rightharpoonup> 'f Value) \<Rightarrow> (string \<times> 'f Value) list"

text \<open>
  \<open>[]byte(k)\<close> and \<open>string(b)\<close>: a Go string is its bytes. \<open>slice b lo hi\<close> is
  \<open>b[lo:hi]\<close>; Go checks \<open>hi\<close> against the capacity of \<open>b\<close>, which is taken to be
  its length (the buffer holds the encoded node and nothing more), and panics beyond.
\<close>

definition bytes_of :: "string \<Rightarrow> byte list" where
  "bytes_of k = map (\<lambda>ch. of_nat (of_char ch)) k"

definition string_of :: "byte list \<Rightarrow> string" where
  "string_of bs = map (\<lambda>b. char_of (unat b)) bs"

definition slice :: "'a list \<Rightarrow> nat \<Rightarrow> nat \<Rightarrow> 'a list option" where
  "slice b lo hi = (if lo \<le> hi \<and> hi \<le> length b then Some (take (hi - lo) (drop lo b)) else None)"

definition Value_encode :: "'f codec \<Rightarrow> 'f Value \<Rightarrow> byte list" where
  "Value_encode c v =
     encodeFloat64 c (sum_v v) @ encodeFloat64 c (max_v v) @ encodeFloat64 c (min_v v)
     @ encodeFloat64 c (first v) @ encodeFloat64 c (last_v v) @ encodeUint16 c (count v)"

definition decodeValue :: "'f codec \<Rightarrow> byte list \<Rightarrow> 'f Value option" where
  "decodeValue c valueBytes =
     do {
       b0 \<leftarrow> slice valueBytes 0 8;
       b1 \<leftarrow> slice valueBytes 8 16;
       b2 \<leftarrow> slice valueBytes 16 24;
       b3 \<leftarrow> slice valueBytes 24 32;
       b4 \<leftarrow> slice valueBytes 32 40;
       b5 \<leftarrow> slice valueBytes 40 42;
       Some \<lparr>sum_v = decodeFloat64 c b0, max_v = decodeFloat64 c b1,
             min_v = decodeFloat64 c b2, first = decodeFloat64 c b3,
             last_v = decodeFloat64 c b4, count = decodeUint16 c b5\<rparr>
     }"

definition entry_encode :: "'f codec \<Rightarrow> string \<times> 'f Value \<Rightarrow> byte list" where
  "entry_encode c kv =
     (let keyBytes = bytes_of (fst kv)
      in encodeUint16 c (of_nat (length keyBytes)) @ keyBytes @ Value_encode c (snd kv))"

definition nodePointer_encode :: "'f codec \<Rightarrow> 'f nodePointer \<Rightarrow> byte list" where
  "nodePointer_encode c np =
     encodeInt64 c (np_key np) @ encodeInt64 c (pos np)
     @ concat (map (entry_encode c) (range_value c (np_value np)))"

function np_loop ::
  "'f codec \<Rightarrow> byte list \<Rightarrow> nat \<Rightarrow> (string \<rightharpoonup> 'f Value) \<Rightarrow> (string \<rightharpoonup> 'f Value) option" where
  "np_loop c npBytes bufPos val =
     (if bufPos < length npBytes
      then
        (case slice npBytes bufPos (bufPos + 2) of
           None \<Rightarrow> None
         | Some lb \<Rightarrow>
             let keyLength = unat (decodeUint16 c lb);
                 bufPos1 = bufPos + 2
             in case slice npBytes bufPos1 (bufPos1 + keyLength) of
                  None \<Rightarrow> None
                | Some kb \<Rightarrow>
                    let bufPos2 = bufPos1 + keyLength
                    in case slice npBytes bufPos2 (bufPos2 + 42) of
                         None \<Rightarrow> None
                       | Some vb \<Rightarrow>
                           (case decodeValue c vb of
                              None \<Rightarrow> None
                            | Some v \<Rightarrow>
                                np_loop c npBytes (bufPos2 + 42) (val(string_of kb \<mapsto> v))))
      else Some val)"
  by pat_completeness auto
termination
  by (relation "measure (\<lambda>(c, npBytes, bufPos, val). length npBytes - bufPos)") auto

definition decodeNodePointer :: "'f codec \<Rightarrow> byte list \<Rightarrow> 'f nodePointer option" where
  "decodeNodePointer c npBytes =
     do {
       kb \<leftarrow> slice npBytes 0 8;
       pb \<leftarrow> slice npBytes 8 16;
       val \<leftarrow> np_loop c npBytes 16 Map.empty;
       Some (NodePointer (decodeInt64 c kb) (decodeInt64 c pb) None val)
     }"

definition chunk_encode :: "'f codec \<Rightarrow> byte list \<Rightarrow> byte list" where
  "chunk_encode c b = encodeUint16 c (of_nat (length b)) @ b"

definition node_encode :: "'f codec \<Rightarrow> 'f node \<Rightarrow> byte list" where
  "node_encode c n =
     (if isLeaf n
      then encodeUint16 c (level n OR LeafChunkFlag)
           @ concat (map (\<lambda>point. chunk_encode c (Point_encode c point)) (points n))
      else encodeUint16 c (level n OR InteriorChunkFlag)
           @ concat (map (\<lambda>p. chunk_encode c (nodePointer_encode c p)) (pointers n)))"

function leaf_dec_loop ::
  "'f codec \<Rightarrow> byte list \<Rightarrow> nat \<Rightarrow> 'f Point list \<Rightarrow> 'f Point list result" where
  "leaf_dec_loop c nodeBytes bufPos pts =
     (if bufPos < length nodeBytes
      then
        (case slice nodeBytes bufPos (bufPos + 2) of
           None \<Rightarrow> Panic
         | Some lb \<Rightarrow>
             let pointLength = unat (decodeUint16 c lb);
                 bufPos1 = bufPos + 2
             in case slice nodeBytes bufPos1 (bufPos1 + pointLength) of
                  None \<Rightarrow> Panic
                | Some pb \<Rightarrow>
                    (case decodePoint c pb of
                       Inl err \<Rightarrow> Err err
                     | Inr point \<Rightarrow>
                         leaf_dec_loop c nodeBytes (bufPos1 + pointLength) (pts @ [point])))
      else Ok pts)"
  by pat_completeness auto
termination
  by (relation "measure (\<lambda>(c, nodeBytes, bufPos, pts). length nodeBytes - bufPos)") auto

function interior_dec_loop ::
  "'f codec \<Rightarrow> byte list \<Rightarrow> nat \<Rightarrow> 'f nodePointer list \<Rightarrow> 'f nodePointer list result" where
  "interior_dec_loop c nodeBytes bufPos ps =
     (if bufPos < length nodeBytes
      then
        (case slice nodeBytes bufPos (bufPos + 2) of
           None \<Rightarrow> Panic
         | Some lb \<Rightarrow>
             let pointerLength = unat (decodeUint16 c lb);
                 bufPos1 = bufPos + 2
             in case slice nodeBytes bufPos1 (bufPos1 + pointerLength) of
                  None \<Rightarrow> Panic
                | Some pb \<Rightarrow>
                    (case decodeNodePointer c pb of
                       None \<Rightarrow> Panic
                     | Some p \<Rightarrow>
                         interior_dec_loop c nodeBytes (bufPos1 + pointerLength) (ps @ [p])))
      else Ok ps)"
  by pat_completeness auto
termination
  by (relation "measure (\<lambda>(c, nodeBytes, bufPos, ps). length nodeBytes - bufPos)") auto

definition decodeLeafNode :: "'f codec \<Rightarrow> byte list \<Rightarrow> 'f node result" where
  "decodeLeafNode c nodeBytes =
     (case slice nodeBytes 0 2 of
        None \<Rightarrow> Panic
      | Some hb \<Rightarrow>
          (case leaf_dec_loop c nodeBytes 2 [] of
             Panic \<Rightarrow> Panic
           | Err e \<Rightarrow> Err e
           | Ok pts \<Rightarrow> Ok (Node (decodeUint16 c hb AND LevelFlag) 0 True 0 [] pts)))"

definition decodeInteriorNode :: "'f codec \<Rightarrow> byte list \<Rightarrow> 'f node result" where
  "decodeInteriorNode c nodeBytes =
     (case slice nodeBytes 0 2 of
        None \<Rightarrow> Panic
      | Some hb \<Rightarrow>
          (case interior_dec_loop c nodeBytes 2 [] of
             Panic \<Rightarrow> Panic
           | Err e \<Rightarrow> Err e
           | Ok ps \<Rightarrow> Ok (Node (decodeUint16 c hb AND LevelFlag) 0 False (- 1) ps [])))"

definition decodeNode :: "'f codec \<Rightarrow> byte list \<Rightarrow> 'f node result" where
  "decodeNode c nodeBytes =
     (case slice nodeBytes 0 2 of
        None \<Rightarrow> Panic
      | Some fb \<Rightarrow>
          let flags = decodeUint16 c fb
          in if flags AND LeafFlag = LeafChunkFlag then decodeLeafNode c nodeBytes
             else decodeInteriorNode c nodeBytes)"

text \<open>
  \<open>flush\<close> writes the dirty child first and stores its position in the dirty pointer,
  then encodes and writes the node. \<open>writeChunk\<close> is a method of the database that
  is declared outside the source file: it is a parameter that takes the bytes and the
  state of the storage and returns a position or an error, and the new state. The
  result is the node after the call, the position (0 after an error) and the storage.
\<close>

definition write_node ::
  "'f codec \<Rightarrow> (byte list \<Rightarrow> 'w \<Rightarrow> (error + int64) \<times> 'w) \<Rightarrow> 'f node \<Rightarrow> 'w
     \<Rightarrow> 'f node \<times> int64 \<times> 'w" where
  "write_node c writeChunk n w =
     (case writeChunk (node_encode c n) w of
        (Inl err, w') \<Rightarrow> (n, 0, w')
      | (Inr p, w') \<Rightarrow> (n, p, w'))"

function flush ::
  "'f codec \<Rightarrow> (byte list \<Rightarrow> 'w \<Rightarrow> (error + int64) \<times> 'w) \<Rightarrow> 'f node \<Rightarrow> 'w
     \<Rightarrow> ('f node \<times> int64 \<times> 'w) option" where
  "flush c writeChunk n w =
     (if \<not> isLeaf n
      then
        (if dirty n < 0 \<or> int (length (pointers n)) \<le> dirty n then None
         else
           let p = pointers n ! nat (dirty n)
           in case pointer p of
                None \<Rightarrow> None
              | Some child \<Rightarrow>
                  (case flush c writeChunk child w of
                     None \<Rightarrow> None
                   | Some (child', cpos, w') \<Rightarrow>
                       let ps = (pointers n)[nat (dirty n) :=
                                   NodePointer (np_key p) cpos (Some child') (np_value p)]
                       in Some (write_node c writeChunk
                                  (Node (level n) (key n) (isLeaf n) (dirty n) ps (points n)) w')))
      else Some (write_node c writeChunk n w))"
  by pat_completeness auto
termination
proof (relation "measure (\<lambda>(c, writeChunk, n, w). size n)", goal_cases)
  case 1
  show ?case by simp
next
  case (2 c writeChunk n w p child)
  obtain l k b d ps pts where n: "n = Node l k b d ps pts" by (cases n)
  have "nat d < length ps" using 2 n by auto
  then have "p \<in> set ps" using 2 n by simp
  then have a: "size p \<le> size_list size ps" by (simp add: size_list_estimation')
  obtain pk pp pm where p: "p = NodePointer pk pp (Some child) pm"
    using 2(4) by (cases p) simp
  show ?case using a by (simp add: n p)
qed

text \<open>
  The nodes on which \<open>reduce\<close> and \<open>flush\<close> find a valid dirty index all the way down.
\<close>

inductive dirty_ok :: "'f node \<Rightarrow> bool" where
  leaf: "isLeaf n \<Longrightarrow> dirty_ok n"
| interior:
    "\<not> isLeaf n \<Longrightarrow> 0 \<le> dirty n \<Longrightarrow> dirty n < int (length (pointers n)) \<Longrightarrow>
     pointer (pointers n ! nat (dirty n)) = Some child \<Longrightarrow> dirty_ok child \<Longrightarrow> dirty_ok n"

text \<open>
  The leaf at the end of the chain of dirty pointers.
\<close>

function dirty_leaf :: "'f node \<Rightarrow> 'f node option" where
  "dirty_leaf n =
     (if isLeaf n then Some n
      else if dirty n < 0 \<or> int (length (pointers n)) \<le> dirty n then None
      else case pointer (pointers n ! nat (dirty n)) of
             None \<Rightarrow> None
           | Some child \<Rightarrow> dirty_leaf child)"
  by pat_completeness auto
termination
proof (relation "measure size", goal_cases)
  case 1
  show ?case by simp
next
  case (2 n child)
  obtain l k b d ps pts where n: "n = Node l k b d ps pts" by (cases n)
  have "nat d < length ps" using 2 n by auto
  then have "ps ! nat d \<in> set ps" by simp
  then have a: "size (ps ! nat d) \<le> size_list size ps" by (simp add: size_list_estimation')
  obtain pk pp pm where p: "ps ! nat d = NodePointer pk pp (Some child) pm"
    using 2(3) n by (cases "ps ! nat d") simp
  show ?case using a by (simp add: n p)
qed

text \<open>
  The equations of the recursive functions are unfolded by hand, one call at a time.
\<close>

declare reduce.simps [simp del] flush.simps [simp del] dirty_leaf.simps [simp del]
  np_loop.simps [simp del] leaf_dec_loop.simps [simp del] interior_dec_loop.simps [simp del]

subsection \<open>Put and Get\<close>

text \<open>
  The cursor and the transaction are declared outside the source file: \<open>t.init(db)\<close>,
  \<open>t.meta.txid\<close>, \<open>db.Cursor().seek(key)\<close> and \<open>t.Commit()\<close> are parameters, each
  with the database before and after it. The argument \<open>key\<close> of \<open>Put\<close> and \<open>Get\<close>
  is written \<open>key0\<close>.
\<close>

record ('tx, 's) ops =
  tx_init :: "('tx, 's) DB \<Rightarrow> 'tx"
  tx_txid :: "'tx \<Rightarrow> txid"
  seek :: "('tx, 's) DB \<Rightarrow> int64 \<Rightarrow> (int64 \<times> byte list) result \<times> ('tx, 's) DB"
  Commit :: "'tx \<Rightarrow> ('tx, 's) DB \<Rightarrow> unit result \<times> ('tx, 's) DB"

definition beginRWTx :: "('tx, 's) ops \<Rightarrow> ('tx, 's) DB \<Rightarrow> 'tx result \<times> ('tx, 's) DB" where
  "beginRWTx ops db =
     (if \<not> opened db then (Err ErrDatabaseNotOpen, db)
      else
        let t = tx_init ops db;
            db = db\<lparr>rwtx := Some t\<rparr>;
            minid = foldl (\<lambda>minid t. if tx_txid ops t < minid then tx_txid ops t else minid)
                      0xFFFFFFFFFFFFFFFF (txs db)
        in (Ok t, db))"

definition Put ::
  "('tx, 's) ops \<Rightarrow> ('tx, 's) DB \<Rightarrow> int64 \<Rightarrow> (string \<rightharpoonup> 'f) \<Rightarrow> unit result \<times> ('tx, 's) DB" where
  "Put ops db key0 val =
     (case beginRWTx ops db of
        (Ok t, db) \<Rightarrow>
          (case seek ops db key0 of
             (Panic, db) \<Rightarrow> (Panic, db)
           | (_, db) \<Rightarrow> Commit ops t db)
      | (Err err, db) \<Rightarrow> (Err err, db)
      | (Panic, db) \<Rightarrow> (Panic, db))"

definition Get ::
  "('tx, 's) ops \<Rightarrow> ('tx, 's) DB \<Rightarrow> int64 \<Rightarrow> byte list result \<times> ('tx, 's) DB" where
  "Get ops db key0 =
     (case seek ops db key0 of
        (Ok (k, v), db) \<Rightarrow> if key0 \<noteq> k then (Err ErrNotFound, db) else (Ok v, db)
      | (Err err, db) \<Rightarrow> (Err ErrNotFound, db)
      | (Panic, db) \<Rightarrow> (Panic, db))"

subsection \<open>An instance of the parameters\<close>

text \<open>
  For the examples: integers in little-endian order, a \<open>float64\<close> as its 64 bits, and
  points and metric maps that carry the single metric \<open>x\<close>.
\<close>

definition le16 :: "16 word \<Rightarrow> byte list" where
  "le16 w = [ucast w, ucast (drop_bit 8 w)]"

fun le_decode :: "byte list \<Rightarrow> 'a::len word" where
  "le_decode [] = 0"
| "le_decode (b # bs) = ucast b OR push_bit 8 (le_decode bs)"

definition x_Point_encode :: "64 word Point \<Rightarrow> byte list" where
  "x_Point_encode p =
     le64 (Timestamp p) @ (case Value p ''x'' of None \<Rightarrow> [] | Some v \<Rightarrow> le64 v)"

definition x_decodePoint :: "byte list \<Rightarrow> error + 64 word Point" where
  "x_decodePoint b =
     Inr \<lparr>Timestamp = le_decode (take 8 b),
          Value = (if length b = 16 then [''x'' \<mapsto> le_decode (drop 8 b)] else Map.empty)\<rparr>"

definition x_range :: "(string \<rightharpoonup> 'v) \<Rightarrow> (string \<times> 'v) list" where
  "x_range m = (case m ''x'' of None \<Rightarrow> [] | Some v \<Rightarrow> [(''x'', v)])"

definition le_codec :: "64 word codec" where
  "le_codec =
     \<lparr>encodeUint16 = le16, decodeUint16 = le_decode,
      encodeInt64 = le64, decodeInt64 = le_decode,
      encodeFloat64 = le64, decodeFloat64 = le_decode,
      Point_encode = x_Point_encode, decodePoint = x_decodePoint,
      range_value = x_range\<rparr>"

definition chunk_at :: "byte list \<Rightarrow> 'w list \<Rightarrow> (error + int64) \<times> 'w list" where
  "chunk_at b w = (Inr (of_nat (length w)), w)"

text \<open>Points strictly sorted by timestamp, as signed 64-bit integers.\<close>

definition ts_sorted :: "'f Point list \<Rightarrow> bool" where
  "ts_sorted ps = sorted_wrt (\<lambda>p q. sint (Timestamp p) < sint (Timestamp q)) ps"

(*DEFS-END*)

section \<open>Verification: the paged storage manager\<close>

subsection \<open>Meta validation\<close>

text \<open>
  The 48 bytes that \<open>sum64\<close> hashes: they determine the eight fields before the
  checksum and nothing else, and the hash is FNV-1a, byte by byte.
\<close>

lemma le32_inj: "le32 a = le32 b \<longleftrightarrow> a = b"
proof
  assume e: "le32 a = le32 b"
  have bits: "bit a (8 * i + j) = bit b (8 * i + j)" if "i < 4" "j < 8" for i j
  proof -
    have "(ucast (drop_bit (8 * i) a) :: byte) = ucast (drop_bit (8 * i) b)"
      using e that(1) by (auto simp: le32_def less_Suc_eq numeral_eq_Suc)
    then have "bit (ucast (drop_bit (8 * i) a) :: byte) j = bit (ucast (drop_bit (8 * i) b) :: byte) j"
      by simp
    then show ?thesis using that by (simp add: bit_simps)
  qed
  show "a = b"
  proof (rule bit_word_eqI)
    fix n assume "n < LENGTH(32)"
    then have "n div 8 < 4" "n mod 8 < 8" by simp_all
    from bits [OF this] show "bit a n = bit b n" by simp
  qed
qed simp

lemma le64_inj: "le64 a = le64 b \<longleftrightarrow> a = b"
proof
  assume e: "le64 a = le64 b"
  have bits: "bit a (8 * i + j) = bit b (8 * i + j)" if "i < 8" "j < 8" for i j
  proof -
    have "(ucast (drop_bit (8 * i) a) :: byte) = ucast (drop_bit (8 * i) b)"
      using e that(1) by (auto simp: le64_def less_Suc_eq numeral_eq_Suc)
    then have "bit (ucast (drop_bit (8 * i) a) :: byte) j = bit (ucast (drop_bit (8 * i) b) :: byte) j"
      by simp
    then show ?thesis using that by (simp add: bit_simps)
  qed
  show "a = b"
  proof (rule bit_word_eqI)
    fix n assume "n < LENGTH(64)"
    then have "n div 8 < 8" "n mod 8 < 8" by simp_all
    from bits [OF this] show "bit a n = bit b n" by simp
  qed
qed simp

lemma length_le32: "length (le32 w) = 4" by (simp add: le32_def)
lemma length_le64: "length (le64 w) = 8" by (simp add: le64_def)

lemma meta_bytes_inj:
  "meta_bytes m = meta_bytes m' \<longleftrightarrow>
     magic m = magic m' \<and> version m = version m' \<and> pageSize m = pageSize m'
     \<and> flags m = flags m' \<and> freelist m = freelist m' \<and> data m = data m'
     \<and> pgid m = pgid m' \<and> txid m = txid m'"
  by (simp add: meta_bytes_def length_le32 length_le64 le32_inj le64_inj)

lemma fnv64a_snoc: "fnv64a (bs @ [b]) = (fnv64a bs XOR ucast b) * 0x100000001b3"
  by (simp add: fnv64a_def fnv64a_step_def)

lemma fnv_init0:
  "fnv64a (meta_bytes \<lparr>magic = 0xED0CDAED, version = 1, pageSize = 4096, flags = 0, freelist = 2,
          data = 3, pgid = 4, txid = 0, checksum = c\<rparr>) = 14375998125359304029"
  by (simp add: meta_bytes_def) code_simp

lemma fnv_init1:
  "fnv64a (meta_bytes \<lparr>magic = 0xED0CDAED, version = 1, pageSize = 4096, flags = 0, freelist = 2,
          data = 3, pgid = 4, txid = 1, checksum = c\<rparr>) = 12143682718391714620"
  by (simp add: meta_bytes_def) code_simp

lemma length_meta_bytes: "length (meta_bytes m) = 48"
  by (simp add: meta_bytes_def length_le32 length_le64)

lemma meta_bytes_checksum: "meta_bytes (m\<lparr>checksum := c\<rparr>) = meta_bytes m"
  by (simp add: meta_bytes_def)

text \<open>
  C8. \<open>validate\<close> succeeds exactly when the magic is \<open>0xED0CDAED\<close>, the version is 1
  and the checksum is zero or equal to the FNV-1a hash of the 48 bytes of the meta that
  precede the checksum field. Those bytes do not depend on the checksum and are equal
  for two metas exactly when their eight other fields are equal; the hash starts at the
  offset basis and takes each byte with xor, then a multiplication by the prime. The
  error is \<open>ErrInvalid\<close> for a wrong magic, else \<open>ErrVersionMismatch\<close> for a wrong
  version, else \<open>ErrChecksum\<close>.
\<close>

theorem validate_spec:
  "(validate m = None \<longleftrightarrow>
      magic m = 0xED0CDAED \<and> version m = 1
      \<and> (checksum m = 0 \<or> checksum m = fnv64a (meta_bytes m)))
   \<and> (validate m = Some ErrInvalid \<longleftrightarrow> magic m \<noteq> 0xED0CDAED)
   \<and> (validate m = Some ErrVersionMismatch \<longleftrightarrow> magic m = 0xED0CDAED \<and> version m \<noteq> 1)
   \<and> (validate m = Some ErrChecksum \<longleftrightarrow>
        magic m = 0xED0CDAED \<and> version m = 1
        \<and> checksum m \<noteq> 0 \<and> checksum m \<noteq> fnv64a (meta_bytes m))
   \<and> sum64 m = fnv64a (meta_bytes m)
   \<and> length (meta_bytes m) = 48
   \<and> meta_bytes (m\<lparr>checksum := c\<rparr>) = meta_bytes m
   \<and> (meta_bytes m = meta_bytes m' \<longleftrightarrow>
        magic m = magic m' \<and> version m = version m' \<and> pageSize m = pageSize m'
        \<and> flags m = flags m' \<and> freelist m = freelist m' \<and> data m = data m'
        \<and> pgid m = pgid m' \<and> txid m = txid m')
   \<and> fnv64a [] = 0xcbf29ce484222325
   \<and> fnv64a (bs @ [b]) = (fnv64a bs XOR ucast b) * 0x100000001b3"
proof -
  have v: "(validate m = None \<longleftrightarrow>
      magic m = 0xED0CDAED \<and> version m = 1
      \<and> (checksum m = 0 \<or> checksum m = fnv64a (meta_bytes m)))
   \<and> (validate m = Some ErrInvalid \<longleftrightarrow> magic m \<noteq> 0xED0CDAED)
   \<and> (validate m = Some ErrVersionMismatch \<longleftrightarrow> magic m = 0xED0CDAED \<and> version m \<noteq> 1)
   \<and> (validate m = Some ErrChecksum \<longleftrightarrow>
        magic m = 0xED0CDAED \<and> version m = 1
        \<and> checksum m \<noteq> 0 \<and> checksum m \<noteq> fnv64a (meta_bytes m))"
    by (simp add: validate_def magic_const_def version_const_def sum64_def)
  have f: "fnv64a [] = 0xcbf29ce484222325" by (simp add: fnv64a_def)
  show ?thesis
    using v f fnv64a_snoc [of bs b] length_meta_bytes [of m] meta_bytes_checksum [where m = m and c = c]
      meta_bytes_inj [of m m']
    by (simp only: sum64_def simp_thms)
qed

text \<open>
  The two meta pages that \<open>init\<close> writes with a 4096-byte page size: each validates
  with its own checksum and with a zero checksum, and fails with the checksum of the
  other page; a wrong version and a wrong magic give their errors.
\<close>

theorem validate_spec_witness:
  "validate \<lparr>magic = 0xED0CDAED, version = 1, pageSize = 4096, flags = 0, freelist = 2,
          data = 3, pgid = 4, txid = 0, checksum = 14375998125359304029\<rparr> = None
   \<and> validate \<lparr>magic = 0xED0CDAED, version = 1, pageSize = 4096, flags = 0, freelist = 2,
          data = 3, pgid = 4, txid = 1, checksum = 12143682718391714620\<rparr> = None
   \<and> validate \<lparr>magic = 0xED0CDAED, version = 1, pageSize = 4096, flags = 0, freelist = 2,
          data = 3, pgid = 4, txid = 0, checksum = 0\<rparr> = None
   \<and> validate \<lparr>magic = 0xED0CDAED, version = 1, pageSize = 4096, flags = 0, freelist = 2,
          data = 3, pgid = 4, txid = 0, checksum = 12143682718391714620\<rparr> = Some ErrChecksum
   \<and> validate \<lparr>magic = 0xED0CDAED, version = 1, pageSize = 4096, flags = 0, freelist = 2,
          data = 3, pgid = 4, txid = 1, checksum = 14375998125359304029\<rparr> = Some ErrChecksum
   \<and> validate \<lparr>magic = 0xED0CDAED, version = 2, pageSize = 4096, flags = 0, freelist = 2,
          data = 3, pgid = 4, txid = 0, checksum = 7\<rparr> = Some ErrVersionMismatch
   \<and> validate \<lparr>magic = 0, version = 2, pageSize = 4096, flags = 0, freelist = 2,
          data = 3, pgid = 4, txid = 0, checksum = 7\<rparr> = Some ErrInvalid"
  using validate_spec [of "\<lparr>magic = 0xED0CDAED, version = 1, pageSize = 4096, flags = 0,
          freelist = 2, data = 3, pgid = 4, txid = 0, checksum = 14375998125359304029\<rparr>"]
    validate_spec [of "\<lparr>magic = 0xED0CDAED, version = 1, pageSize = 4096, flags = 0,
          freelist = 2, data = 3, pgid = 4, txid = 1, checksum = 12143682718391714620\<rparr>"]
    validate_spec [of "\<lparr>magic = 0xED0CDAED, version = 1, pageSize = 4096, flags = 0,
          freelist = 2, data = 3, pgid = 4, txid = 0, checksum = 0\<rparr>"]
    validate_spec [of "\<lparr>magic = 0xED0CDAED, version = 1, pageSize = 4096, flags = 0,
          freelist = 2, data = 3, pgid = 4, txid = 0, checksum = 12143682718391714620\<rparr>"]
    validate_spec [of "\<lparr>magic = 0xED0CDAED, version = 1, pageSize = 4096, flags = 0,
          freelist = 2, data = 3, pgid = 4, txid = 1, checksum = 14375998125359304029\<rparr>"]
    validate_spec [of "\<lparr>magic = 0xED0CDAED, version = 2, pageSize = 4096, flags = 0,
          freelist = 2, data = 3, pgid = 4, txid = 0, checksum = 7\<rparr>"]
    validate_spec [of "\<lparr>magic = 0, version = 2, pageSize = 4096, flags = 0,
          freelist = 2, data = 3, pgid = 4, txid = 0, checksum = 7\<rparr>"]
  by (simp add: fnv_init0 fnv_init1)

subsection \<open>The map size\<close>

lemma round_up_least:
  assumes "0 < m"
  shows "m dvd round_up m x \<and> x \<le> round_up m x \<and> (\<forall>y. m dvd y \<and> x \<le> y \<longrightarrow> round_up m x \<le> y)"
proof (cases "x mod m = 0")
  case True
  then show ?thesis by (auto simp: round_up_def)
next
  case False
  have a: "x = (x div m) * m + x mod m" by simp
  have b: "x mod m < m" "0 \<le> x mod m" using assms by simp_all
  have "(x div m + 1) * m = (x div m) * m + m" by (simp add: algebra_simps)
  then have c: "x \<le> (x div m + 1) * m" using a b by linarith
  have d: "(x div m + 1) * m \<le> y" if dv: "m dvd y" and le: "x \<le> y" for y
  proof -
    obtain q where q: "y = q * m" using dv by (auto simp: dvd_def mult.commute)
    have "x div m \<le> (q * m) div m" using le q assms by (intro zdiv_mono1) simp_all
    then have "x div m \<le> q" using assms by simp
    moreover have "x div m \<noteq> q"
    proof
      assume e: "x div m = q"
      have "q * m + x mod m = x" using e by (metis div_mult_mod_eq)
      then have "x mod m \<le> 0" using le q by linarith
      then show False using False b by linarith
    qed
    ultimately have "x div m + 1 \<le> q" by simp
    then show ?thesis using assms q by (simp add: mult_right_mono)
  qed
  show ?thesis using False c d by (auto simp: round_up_def)
qed

lemma dl_Some:
  "double_loop s i = Some r \<Longrightarrow>
     \<exists>k. i \<le> k \<and> k \<le> 30 \<and> r = 2 ^ k \<and> s \<le> 2 ^ k \<and> (\<forall>j. i \<le> j \<and> j < k \<longrightarrow> \<not> s \<le> 2 ^ j)"
proof (induction s i rule: double_loop.induct)
  case (1 s i)
  show ?case
  proof (cases "i \<le> 30 \<and> \<not> s \<le> 2 ^ i")
    case True
    then have "double_loop s (i + 1) = Some r" using "1.prems" by simp
    then obtain k where k: "i + 1 \<le> k" "k \<le> 30" "r = 2 ^ k" "s \<le> 2 ^ k"
        "\<forall>j. i + 1 \<le> j \<and> j < k \<longrightarrow> \<not> s \<le> 2 ^ j"
      using "1.IH" True by blast
    have "\<forall>j. i \<le> j \<and> j < k \<longrightarrow> \<not> s \<le> 2 ^ j"
    proof (intro allI impI)
      fix j assume "i \<le> j \<and> j < k"
      then show "\<not> s \<le> 2 ^ j" using k(5) True by (cases "j = i") auto
    qed
    with k show ?thesis by (intro exI[of _ k]) simp
  next
    case False
    then show ?thesis using "1.prems" by (intro exI[of _ i]) (auto split: if_splits)
  qed
qed

lemma dl_None:
  "double_loop s i = None \<Longrightarrow> i \<le> 30 \<Longrightarrow> 2 ^ 30 < s"
proof (induction s i rule: double_loop.induct)
  case (1 s i)
  show ?case
  proof (cases "i = 30")
    case True
    then show ?thesis using "1.prems" by (simp split: if_splits)
  next
    case False
    then show ?thesis using 1 by (simp split: if_splits)
  qed
qed

lemma dl_total:
  "s \<le> 2 ^ 30 \<Longrightarrow> i \<le> 30 \<Longrightarrow> \<exists>r. double_loop s i = Some r"
  using dl_None [of s i] by (cases "double_loop s i") auto

lemma dl_big: "2 ^ 30 < s \<Longrightarrow> double_loop s i = None"
proof (induction s i rule: double_loop.induct)
  case (1 s i)
  have "\<not> s \<le> 2 ^ i" if "i \<le> 30"
  proof -
    have "(2::int) ^ i \<le> 2 ^ 30" using that by (intro power_increasing) simp_all
    then show ?thesis using "1.prems" by linarith
  qed
  then show ?case using 1 by simp
qed

lemma smod_nonneg: "0 \<le> a \<Longrightarrow> 0 < b \<Longrightarrow> (a::int) smod b = a mod b"
  by (simp add: smod_int_alt_def sgn_if)

lemma sdiv_nonneg: "0 \<le> a \<Longrightarrow> 0 < b \<Longrightarrow> (a::int) sdiv b = a div b"
  by (simp add: signed_divide_int_def sgn_if)

lemma wrap64_id: "- 9223372036854775808 \<le> x \<Longrightarrow> x < 9223372036854775808 \<Longrightarrow> wrap64 x = x"
  by (simp add: wrap64_def signed_take_bit_int_eq_self)

lemma mmapSize_small:
  assumes "s \<le> 2 ^ 30"
  shows "\<exists>k. 15 \<le> k \<and> k \<le> 30 \<and> mmapSize M p s = Ok (2 ^ k) \<and> s \<le> 2 ^ k
            \<and> (\<forall>j. 15 \<le> j \<and> s \<le> 2 ^ j \<longrightarrow> k \<le> j)"
proof -
  obtain r where r: "double_loop s 15 = Some r" using dl_total [OF assms, of 15] by auto
  from dl_Some [OF r] obtain k where k: "15 \<le> k" "k \<le> 30" "r = 2 ^ k" "s \<le> 2 ^ k"
     "\<forall>j. 15 \<le> j \<and> j < k \<longrightarrow> \<not> s \<le> 2 ^ j" by blast
  have "\<forall>j. 15 \<le> j \<and> s \<le> 2 ^ j \<longrightarrow> k \<le> j" using k(5) by (meson not_le)
  then show ?thesis using r k by (intro exI[of _ k]) (simp add: mmapSize_def)
qed

lemma mmapSize_large:
  assumes M: "M < 2 ^ 62" and p: "0 < p" "p \<le> 2 ^ 32" and s: "2 ^ 30 < s" "s \<le> M"
  shows "mmapSize M p s = Ok (min M (round_up p (round_up (2 ^ 30) s)))"
proof -
  let ?G = "1073741824::int"
  have G: "(2::int) ^ 30 = ?G" by simp
  have Mn: "M < 4611686018427387904" and pn: "p \<le> 4294967296" and sn: "?G < s"
    using M p s by simp_all
  have dl: "double_loop s 15 = None" using s(1) by (rule dl_big)
  have rem: "s smod ?G = s mod ?G" using sn by (intro smod_nonneg) simp_all
  have rb: "0 \<le> s mod ?G" "s mod ?G < ?G" by simp_all
  define r where "r = s mod ?G"
  define s1 where "s1 = (if r > 0 then s + (?G - r) else s)"
  have s1_eq: "s1 = round_up ?G s"
  proof (cases "r = 0")
    case True then show ?thesis by (simp add: s1_def round_up_def r_def)
  next
    case False
    have "s = (s div ?G) * ?G + r" by (simp add: r_def)
    then have "s + (?G - r) = (s div ?G + 1) * ?G" by (simp add: algebra_simps)
    moreover have "0 < r" using False rb(1) r_def by linarith
    ultimately show ?thesis using False by (simp add: s1_def round_up_def r_def)
  qed
  have rb': "0 \<le> r" "r < ?G" using rb by (simp_all add: r_def)
  have s1b: "s \<le> s1" "s1 \<le> s + ?G" using rb' by (auto simp: s1_def)
  have w1: "(if r > 0 then wrap64 (s + wrap64 (?G - r)) else s) = s1"
  proof -
    have "wrap64 (?G - r) = ?G - r" using rb' by (intro wrap64_id) linarith+
    moreover have "wrap64 (s + (?G - r)) = s + (?G - r)"
      using rb' sn s(2) Mn by (intro wrap64_id) linarith+
    ultimately show ?thesis by (simp add: s1_def)
  qed
  have s1pos: "0 \<le> s1" using sn s1b by linarith
  have pm: "s1 smod p = s1 mod p" "s1 sdiv p = s1 div p"
    using s1pos p by (simp_all add: smod_nonneg sdiv_nonneg)
  define q where "q = s1 div p"
  have w2: "wrap64 (wrap64 (q + 1) * p) = (q + 1) * p"
  proof -
    have d0: "0 \<le> q" using s1pos p(1) by (simp add: q_def pos_imp_zdiv_nonneg_iff)
    have "s1 = q * p + s1 mod p" by (simp add: q_def)
    moreover have "0 \<le> s1 mod p" using p(1) by simp
    ultimately have qp: "q * p \<le> s1" by linarith
    have "q * 1 \<le> q * p" using d0 p(1) by (intro mult_left_mono) simp_all
    then have d1: "q \<le> s1" using qp by linarith
    have a: "wrap64 (q + 1) = q + 1"
      using d0 d1 s1b sn s(2) Mn by (intro wrap64_id) linarith+
    have e: "(q + 1) * p = q * p + p" by (simp add: algebra_simps)
    have "0 \<le> q * p" using d0 p(1) by simp
    then have "wrap64 ((q + 1) * p) = (q + 1) * p"
      unfolding e using qp s1b sn s(2) Mn pn p(1) by (intro wrap64_id) linarith+
    with a show ?thesis by simp
  qed
  have "mmapSize M p s = Ok (let sz = (if s1 mod p \<noteq> 0 then (q + 1) * p else s1) in if sz > M then M else sz)"
    using s(2) p(1) unfolding mmapSize_def
    by (simp add: dl maxMmapStep_def rem Let_def r_def[symmetric] w1 pm q_def[symmetric] w2
        del: double_loop.simps split del: if_split cong: if_cong)
  also have "\<dots> = Ok (min M (round_up p s1))"
    by (simp add: round_up_def q_def min_def Let_def)
  finally show ?thesis by (simp add: s1_eq)
qed

lemma mmapSize_too_large:
  assumes "2 ^ 30 \<le> M" "M < s"
  shows "mmapSize M p s = Err (ErrMsg ''mmap too large'')"
proof -
  have "double_loop s 15 = None" using assms by (intro dl_big) simp
  then show ?thesis using assms by (simp add: mmapSize_def)
qed

text \<open>
  C7. With a hard maximum of at least 1 GiB and a page size between 1 and \<open>2^32\<close>:
  a request from 1 byte to \<open>2^30\<close> gets the smallest power of two that is at least
  32 KiB and covers it; a larger request within the maximum gets the request rounded up
  to a multiple of 1 GiB, then to a multiple of the page size, capped at the maximum; a
  request above the maximum is an error.
\<close>

theorem mmapSize_spec:
  assumes "2 ^ 30 \<le> M" and "M < 2 ^ 62" and "0 < p" and "p \<le> 2 ^ 32"
  shows "(1 \<le> s \<and> s \<le> 2 ^ 30 \<longrightarrow>
            (\<exists>k. 15 \<le> k \<and> mmapSize M p s = Ok (2 ^ k) \<and> s \<le> 2 ^ k
                 \<and> (\<forall>j. 15 \<le> j \<and> s \<le> 2 ^ j \<longrightarrow> k \<le> j)))
       \<and> (2 ^ 30 < s \<and> s \<le> M \<longrightarrow>
            mmapSize M p s = Ok (min M (round_up p (round_up (2 ^ 30) s))))
       \<and> (M < s \<longrightarrow> mmapSize M p s = Err (ErrMsg ''mmap too large''))"
proof (intro conjI impI)
  assume "1 \<le> s \<and> s \<le> 2 ^ 30"
  then obtain k where "15 \<le> k" "k \<le> 30" "mmapSize M p s = Ok (2 ^ k)" "s \<le> 2 ^ k"
      "\<forall>j. 15 \<le> j \<and> s \<le> 2 ^ j \<longrightarrow> k \<le> j"
    using mmapSize_small [of s M p] by blast
  then show "\<exists>k. 15 \<le> k \<and> mmapSize M p s = Ok (2 ^ k) \<and> s \<le> 2 ^ k
                 \<and> (\<forall>j. 15 \<le> j \<and> s \<le> 2 ^ j \<longrightarrow> k \<le> j)"
    by blast
next
  assume "2 ^ 30 < s \<and> s \<le> M"
  then show "mmapSize M p s = Ok (min M (round_up p (round_up (2 ^ 30) s)))"
    using assms by (simp add: mmapSize_large)
next
  assume "M < s"
  then show "mmapSize M p s = Err (ErrMsg ''mmap too large'')"
    using assms(1) by (rule mmapSize_too_large [rotated])
qed

theorem mmapSize_spec_witness:
  "mmapSize 0xFFFFFFFFFFFF 4096 40000 = Ok 65536
   \<and> mmapSize 0xFFFFFFFFFFFF 4096 1073741825 = Ok 2147483648
   \<and> mmapSize 0xFFFFFFFFFFFF 4096 0x1000000000000 = Err (ErrMsg ''mmap too large'')"
proof -
  have h: "(2::int) ^ 30 \<le> 0xFFFFFFFFFFFF" "(0xFFFFFFFFFFFF::int) < 2 ^ 62" "(0::int) < 4096"
      "(4096::int) \<le> 2 ^ 32"
    by simp_all
  note t = mmapSize_spec [OF h]
  obtain k where k: "15 \<le> k" "mmapSize 0xFFFFFFFFFFFF 4096 40000 = Ok (2 ^ k)"
      "(40000::int) \<le> 2 ^ k" "\<forall>j. 15 \<le> j \<and> (40000::int) \<le> 2 ^ j \<longrightarrow> k \<le> j"
    using t [of 40000] by auto
  have "k \<le> 16" using k(4) by simp
  moreover have "k \<noteq> 15" using k(3) by auto
  ultimately have "k = 16" using k(1) by simp
  then have a: "mmapSize 0xFFFFFFFFFFFF 4096 40000 = Ok 65536" using k(2) by simp
  have b: "mmapSize 0xFFFFFFFFFFFF 4096 1073741825 = Ok 2147483648"
    using t [of 1073741825] by (simp add: round_up_def)
  have c: "mmapSize 0xFFFFFFFFFFFF 4096 0x1000000000000 = Err (ErrMsg ''mmap too large'')"
    using t [of "0x1000000000000"] by simp
  show ?thesis using a b c by simp
qed

subsection \<open>The active meta page\<close>

text \<open>
  C6. With both meta pages mapped, \<open>db.meta()\<close> returns the meta with the strictly
  higher transaction id when it validates, the other one when only that one validates,
  and panics when neither validates; with two such pages in the file, \<open>mmap\<close> does
  not succeed, and returns an error whenever the page size is not zero.
\<close>

theorem meta_of_selects:
  assumes "meta0 db = Some m0" and "meta1 db = Some m1"
  shows "(txid m0 < txid m1 \<and> validate m1 = None \<longrightarrow> meta_of db = Ok m1)
       \<and> (txid m1 < txid m0 \<and> validate m0 = None \<longrightarrow> meta_of db = Ok m0)
       \<and> (txid m0 < txid m1 \<and> validate m1 \<noteq> None \<and> validate m0 = None \<longrightarrow> meta_of db = Ok m0)
       \<and> (txid m1 < txid m0 \<and> validate m0 \<noteq> None \<and> validate m1 = None \<longrightarrow> meta_of db = Ok m1)
       \<and> (validate m0 \<noteq> None \<and> validate m1 \<noteq> None \<longrightarrow>
            meta_of db = Panic
            \<and> (\<forall>M pf (db' :: ('tx, 's) DB) minsz.
                  page_meta0 pf = m0 \<and> page_meta1 pf = m1 \<longrightarrow>
                    fst (mmap M pf db' minsz) \<noteq> Ok ()
                    \<and> (db_pageSize db' \<noteq> 0 \<longrightarrow> (\<exists>e. fst (mmap M pf db' minsz) = Err e))))"
proof -
  have sel: "(txid m0 < txid m1 \<and> validate m1 = None \<longrightarrow> meta_of db = Ok m1)
       \<and> (txid m1 < txid m0 \<and> validate m0 = None \<longrightarrow> meta_of db = Ok m0)
       \<and> (txid m0 < txid m1 \<and> validate m1 \<noteq> None \<and> validate m0 = None \<longrightarrow> meta_of db = Ok m0)
       \<and> (txid m1 < txid m0 \<and> validate m0 \<noteq> None \<and> validate m1 = None \<longrightarrow> meta_of db = Ok m1)
       \<and> (validate m0 \<noteq> None \<and> validate m1 \<noteq> None \<longrightarrow> meta_of db = Panic)"
    using assms by (auto simp: meta_of_def Let_def)
  have np: "mmapSize M p s \<noteq> Panic" if "p \<noteq> 0" for M p s
    using that by (simp add: mmapSize_def Let_def split: option.splits)
  have mm: "fst (mmap M pf db' minsz) \<noteq> Ok ()
            \<and> (db_pageSize db' \<noteq> 0 \<longrightarrow> (\<exists>e. fst (mmap M pf db' minsz) = Err e))"
    if v: "validate (page_meta0 pf) \<noteq> None" "validate (page_meta1 pf) \<noteq> None"
    for M pf and db' :: "('tx, 's) DB" and minsz
  proof (cases "stat_size pf")
    case None
    then show ?thesis by (simp add: mmap_def)
  next
    case (Some fs)
    define sz where "sz = (if fs < minsz then minsz else fs)"
    show ?thesis
    proof (cases "mmapSize M (db_pageSize db') sz")
      case (Ok r)
      then show ?thesis using Some v by (simp add: mmap_def Let_def sz_def)
    next
      case (Err e)
      then show ?thesis using Some by (simp add: mmap_def Let_def sz_def)
    next
      case Panic
      then have "db_pageSize db' = 0" using np [of "db_pageSize db'" M sz] by auto
      then show ?thesis using Some Panic by (simp add: mmap_def Let_def sz_def)
    qed
  qed
  show ?thesis using sel mm by blast
qed


theorem meta_of_selects_witness:
  "meta_of \<lparr>opened = True,
      meta0 = Some \<lparr>magic = 0xED0CDAED, version = 1, pageSize = 4096, flags = 0, freelist = 2,
                     data = 3, pgid = 4, txid = 0, checksum = 0\<rparr>,
      meta1 = Some \<lparr>magic = 0xED0CDAED, version = 1, pageSize = 4096, flags = 0, freelist = 2,
                     data = 3, pgid = 4, txid = 1, checksum = 0\<rparr>,
      db_pageSize = 4096, rwtx = (None :: unit option), txs = [], store = ()\<rparr>
    = Ok \<lparr>magic = 0xED0CDAED, version = 1, pageSize = 4096, flags = 0, freelist = 2,
            data = 3, pgid = 4, txid = 1, checksum = 0\<rparr>
   \<and> meta_of \<lparr>opened = True,
      meta0 = Some \<lparr>magic = 0xED0CDAED, version = 1, pageSize = 4096, flags = 0, freelist = 2,
                     data = 3, pgid = 4, txid = 0, checksum = 0\<rparr>,
      meta1 = Some \<lparr>magic = 0, version = 1, pageSize = 4096, flags = 0, freelist = 2,
                     data = 3, pgid = 4, txid = 1, checksum = 0\<rparr>,
      db_pageSize = 4096, rwtx = (None :: unit option), txs = [], store = ()\<rparr>
    = Ok \<lparr>magic = 0xED0CDAED, version = 1, pageSize = 4096, flags = 0, freelist = 2,
            data = 3, pgid = 4, txid = 0, checksum = 0\<rparr>
   \<and> meta_of \<lparr>opened = True,
      meta0 = Some \<lparr>magic = 0, version = 1, pageSize = 4096, flags = 0, freelist = 2,
                     data = 3, pgid = 4, txid = 0, checksum = 0\<rparr>,
      meta1 = Some \<lparr>magic = 0, version = 1, pageSize = 4096, flags = 0, freelist = 2,
                     data = 3, pgid = 4, txid = 1, checksum = 0\<rparr>,
      db_pageSize = 4096, rwtx = (None :: unit option), txs = [], store = ()\<rparr>
    = Panic
   \<and> fst (mmap 0xFFFFFFFFFFFF
        \<lparr>stat_size = Some 16384, munmap_ok = True, mmap_ok = True,
         page_meta0 = \<lparr>magic = 0, version = 1, pageSize = 4096, flags = 0, freelist = 2,
                     data = 3, pgid = 4, txid = 0, checksum = 0\<rparr>,
         page_meta1 = \<lparr>magic = 0, version = 1, pageSize = 4096, flags = 0, freelist = 2,
                     data = 3, pgid = 4, txid = 1, checksum = 0\<rparr>\<rparr>
        \<lparr>opened = True, meta0 = None, meta1 = None, db_pageSize = 4096,
         rwtx = (None :: unit option), txs = [], store = ()\<rparr> 0) = Err ErrInvalid"
proof -
  let ?ok0 = "\<lparr>magic = 0xED0CDAED, version = 1, pageSize = 4096, flags = 0, freelist = 2,
                data = 3, pgid = 4, txid = 0, checksum = 0\<rparr>"
  let ?ok1 = "\<lparr>magic = 0xED0CDAED, version = 1, pageSize = 4096, flags = 0, freelist = 2,
                data = 3, pgid = 4, txid = 1, checksum = 0\<rparr>"
  let ?bad0 = "\<lparr>magic = 0, version = 1, pageSize = 4096, flags = 0, freelist = 2,
                data = 3, pgid = 4, txid = 0, checksum = 0\<rparr>"
  let ?bad1 = "\<lparr>magic = 0, version = 1, pageSize = 4096, flags = 0, freelist = 2,
                data = 3, pgid = 4, txid = 1, checksum = 0\<rparr>"
  let ?db = "\<lambda>a b. \<lparr>opened = True, meta0 = Some a, meta1 = Some b, db_pageSize = 4096,
                rwtx = (None :: unit option), txs = [], store = ()\<rparr>"
  let ?pf = "\<lparr>stat_size = Some 16384, munmap_ok = True, mmap_ok = True,
         page_meta0 = ?bad0, page_meta1 = ?bad1\<rparr>"
  let ?d0 = "\<lparr>opened = True, meta0 = None, meta1 = None, db_pageSize = 4096,
         rwtx = (None :: unit option), txs = [], store = ()\<rparr>"
  have v: "validate ?ok0 = None" "validate ?ok1 = None" "validate ?bad0 = Some ErrInvalid"
      "validate ?bad1 = Some ErrInvalid"
    by (simp_all add: validate_def magic_const_def version_const_def)
  have a: "meta_of (?db ?ok0 ?ok1) = Ok ?ok1"
    using meta_of_selects [of "?db ?ok0 ?ok1" ?ok0 ?ok1] v by simp
  have b: "meta_of (?db ?ok0 ?bad1) = Ok ?ok0"
    using meta_of_selects [of "?db ?ok0 ?bad1" ?ok0 ?bad1] v by simp
  have c: "meta_of (?db ?bad0 ?bad1) = Panic
           \<and> (\<exists>e. fst (mmap 0xFFFFFFFFFFFF ?pf ?d0 0) = Err e)"
    using meta_of_selects [of "?db ?bad0 ?bad1" ?bad0 ?bad1, where ?'tx = unit and ?'s = unit] v
    by simp
  have ms: "mmapSize 0xFFFFFFFFFFFF 4096 16384 = Ok 32768"
    by (simp add: mmapSize_def)
  have d: "fst (mmap 0xFFFFFFFFFFFF ?pf ?d0 0) = Err ErrInvalid"
    using c by (simp add: mmap_def wrap64_def ms v)
  show ?thesis using a b c d by simp
qed

section \<open>Verification: the time-bucket tree\<close>

subsection \<open>sort.Search\<close>

lemma Search_loop_bounds: "i \<le> j \<Longrightarrow> i \<le> Search_loop f i j \<and> Search_loop f i j \<le> j"
proof (induction f i j rule: Search_loop.induct)
  case (1 f i j)
  show ?case
  proof (cases "i < j")
    case False
    then show ?thesis using "1.prems" by simp
  next
    case True
    define h where "h = (i + j) div 2"
    have h: "i \<le> h" "h < j" using True by (simp_all add: h_def)
    show ?thesis
    proof (cases "f h")
      case True
      then have "Search_loop f i j = Search_loop f i h"
        using \<open>i < j\<close> by (simp add: h_def Let_def)
      then show ?thesis using "1.IH"(2) [OF \<open>i < j\<close> h_def] True h by simp
    next
      case False
      then have "Search_loop f i j = Search_loop f (h + 1) j"
        using \<open>i < j\<close> by (simp add: h_def Let_def)
      then show ?thesis using "1.IH"(1) [OF \<open>i < j\<close> h_def] False h by simp
    qed
  qed
qed

lemma Search_le: "Search n f \<le> n"
  using Search_loop_bounds [of 0 n f] by (simp add: Search_def)

lemma Search_loop_all_false:
  "i \<le> j \<Longrightarrow> (\<forall>h. i \<le> h \<and> h < j \<longrightarrow> \<not> f h) \<Longrightarrow> Search_loop f i j = j"
proof (induction f i j rule: Search_loop.induct)
  case (1 f i j)
  show ?case
  proof (cases "i < j")
    case False
    then show ?thesis using "1.prems" by simp
  next
    case True
    define h where "h = (i + j) div 2"
    have h: "i \<le> h" "h < j" using True by (simp_all add: h_def)
    then have nf: "\<not> f h" using "1.prems" by simp
    then have "Search_loop f i j = Search_loop f (h + 1) j"
      using True by (simp add: h_def Let_def)
    moreover have "Search_loop f (h + 1) j = j"
      using "1.IH"(1) [OF True h_def nf] h "1.prems"(2) by simp
    ultimately show ?thesis by simp
  qed
qed

lemma Search_all_false: "(\<forall>h < n. \<not> f h) \<Longrightarrow> Search n f = n"
  using Search_loop_all_false [of 0 n f] by (simp add: Search_def)

text \<open>
  For a predicate that is monotone on \<open>[i, j)\<close> the result is the first index where
  it holds.
\<close>

lemma Search_loop_first:
  assumes "i \<le> j"
    and "\<forall>a b. i \<le> a \<and> a \<le> b \<and> b < j \<and> f a \<longrightarrow> f b"
  shows "(\<forall>x. i \<le> x \<and> x < Search_loop f i j \<longrightarrow> \<not> f x)
       \<and> (\<forall>x. Search_loop f i j \<le> x \<and> x < j \<longrightarrow> f x)"
  using assms
proof (induction f i j rule: Search_loop.induct)
  case (1 f i j)
  show ?case
  proof (cases "i < j")
    case False
    then show ?thesis using "1.prems" by auto
  next
    case True
    define h where "h = (i + j) div 2"
    have h: "i \<le> h" "h < j" using True by (simp_all add: h_def)
    have mono: "f b" if "i \<le> a" "a \<le> b" "b < j" "f a" for a b
      using "1.prems"(2) that by blast
    show ?thesis
    proof (cases "f h")
      case fh: True
      then have e: "Search_loop f i j = Search_loop f i h"
        using True by (simp add: h_def Let_def)
      have m': "\<forall>a b. i \<le> a \<and> a \<le> b \<and> b < h \<and> f a \<longrightarrow> f b"
      proof (intro allI impI)
        fix a b assume "i \<le> a \<and> a \<le> b \<and> b < h \<and> f a"
        then show "f b" using mono [of a b] h(2) by simp
      qed
      have ih: "(\<forall>x. i \<le> x \<and> x < Search_loop f i h \<longrightarrow> \<not> f x)
              \<and> (\<forall>x. Search_loop f i h \<le> x \<and> x < h \<longrightarrow> f x)"
        by (rule "1.IH"(2) [OF True h_def]) (use fh h m' in simp_all)
      show ?thesis unfolding e
      proof (intro conjI allI impI)
        fix x assume "i \<le> x \<and> x < Search_loop f i h"
        then show "\<not> f x" using ih by blast
      next
        fix x assume x: "Search_loop f i h \<le> x \<and> x < j"
        show "f x"
        proof (cases "x < h")
          case True
          then show ?thesis using ih x by blast
        next
          case False
          then show ?thesis using mono [of h x] h x fh by simp
        qed
      qed
    next
      case nfh: False
      then have e: "Search_loop f i j = Search_loop f (h + 1) j"
        using True by (simp add: h_def Let_def)
      have m': "\<forall>a b. h + 1 \<le> a \<and> a \<le> b \<and> b < j \<and> f a \<longrightarrow> f b"
      proof (intro allI impI)
        fix a b assume "h + 1 \<le> a \<and> a \<le> b \<and> b < j \<and> f a"
        then show "f b" using mono [of a b] h(1) by simp
      qed
      have ih: "(\<forall>x. h + 1 \<le> x \<and> x < Search_loop f (h + 1) j \<longrightarrow> \<not> f x)
              \<and> (\<forall>x. Search_loop f (h + 1) j \<le> x \<and> x < j \<longrightarrow> f x)"
        by (rule "1.IH"(1) [OF True h_def]) (use nfh h m' in simp_all)
      have b: "h + 1 \<le> Search_loop f (h + 1) j"
        using Search_loop_bounds [of "h + 1" j f] h by simp
      show ?thesis unfolding e
      proof (intro conjI allI impI)
        fix x assume x: "i \<le> x \<and> x < Search_loop f (h + 1) j"
        show "\<not> f x"
        proof (cases "x \<le> h")
          case True
          show ?thesis
          proof
            assume "f x"
            then have "f h" using mono [of x h] x True h by simp
            then show False using nfh by simp
          qed
        next
          case False
          then show ?thesis using ih x by simp
        qed
      next
        fix x assume "Search_loop f (h + 1) j \<le> x \<and> x < j"
        then show "f x" using ih by blast
      qed
    qed
  qed
qed

subsection \<open>insertPoint\<close>

text \<open>
  On a leaf without points the search returns 0, which is the length, and
  \<open>n.points[index]\<close> panics before anything is inserted; the same happens for a
  timestamp above every point of the leaf.
\<close>

lemma insertPoint_empty_leaf_panics:
  "insertPoint (Node l k True d ps []) t v = None"
  by (simp add: insertPoint_def Search_def)

lemma insertPoint_beyond_last_panics:
  assumes "\<forall>p \<in> set (points n). sint (Timestamp p) < sint (TS t)"
  shows "insertPoint n t v = None"
proof -
  have "Search (length (points n)) (\<lambda>i. sint (TS t) \<le> sint (Timestamp (points n ! i)))
          = length (points n)"
    using assms by (intro Search_all_false) (auto simp: not_le)
  then show ?thesis by (simp add: insertPoint_def)
qed

lemma insertPoint_in_range:
  fixes n :: "'f node"
  assumes srt: "ts_sorted (points n)"
    and ex: "\<exists>p \<in> set (points n). sint (TS t) \<le> sint (Timestamp p)"
  shows "\<exists>n'. insertPoint n t v = Some n'
           \<and> ts_sorted (points n')
           \<and> \<lparr>Timestamp = TS t, Value = v\<rparr> \<in> set (points n')
           \<and> set (points n') \<subseteq> insert \<lparr>Timestamp = TS t, Value = v\<rparr> (set (points n))
           \<and> (\<forall>p \<in> set (points n). Timestamp p \<noteq> TS t \<longrightarrow> p \<in> set (points n'))
           \<and> length (points n') =
               (if TS t \<in> Timestamp ` set (points n) then length (points n)
                else length (points n) + 1)
           \<and> level n' = level n \<and> isLeaf n' = isLeaf n \<and> dirty n' = dirty n
           \<and> pointers n' = pointers n"
proof -
  define ps where "ps = points n"
  define f where "f = (\<lambda>i. sint (TS t) \<le> sint (Timestamp (ps ! i)))"
  define idx where "idx = Search (length ps) f"
  have s: "sorted_wrt (\<lambda>p q. sint (Timestamp p) < sint (Timestamp q)) ps"
    using srt by (simp add: ts_sorted_def ps_def)
  have lt: "sint (Timestamp (ps ! a)) < sint (Timestamp (ps ! b))" if "a < b" "b < length ps" for a b
    using s that by (simp add: sorted_wrt_iff_nth_less)
  have mono: "\<forall>a b. 0 \<le> a \<and> a \<le> b \<and> b < length ps \<and> f a \<longrightarrow> f b"
  proof (intro allI impI)
    fix a b assume h: "0 \<le> a \<and> a \<le> b \<and> b < length ps \<and> f a"
    show "f b"
    proof (cases "a = b")
      case True
      then show ?thesis using h by simp
    next
      case False
      then have "sint (Timestamp (ps ! a)) < sint (Timestamp (ps ! b))" using h lt by simp
      then show ?thesis using h by (simp add: f_def)
    qed
  qed
  have "(\<forall>x. 0 \<le> x \<and> x < Search_loop f 0 (length ps) \<longrightarrow> \<not> f x)
       \<and> (\<forall>x. Search_loop f 0 (length ps) \<le> x \<and> x < length ps \<longrightarrow> f x)"
    by (rule Search_loop_first) (use mono in simp_all)
  then have first: "(\<forall>x. x < idx \<longrightarrow> \<not> f x) \<and> (\<forall>x. idx \<le> x \<and> x < length ps \<longrightarrow> f x)"
    unfolding idx_def Search_def by (simp del: Search_loop.simps)
  have idx_lt: "idx < length ps"
  proof (rule ccontr)
    assume "\<not> idx < length ps"
    then have all: "\<forall>x < length ps. \<not> f x" using first by simp
    obtain p where p: "p \<in> set ps" "sint (TS t) \<le> sint (Timestamp p)"
      using ex by (auto simp: ps_def)
    then obtain i where "i < length ps" "ps ! i = p" by (auto simp: in_set_conv_nth)
    then show False using all p(2) by (auto simp: f_def)
  qed
  have below: "sint (Timestamp (ps ! x)) < sint (TS t)" if "x < idx" for x
    using first that by (simp add: f_def not_le)
  have at: "sint (TS t) \<le> sint (Timestamp (ps ! idx))"
    using first idx_lt by (simp add: f_def)
  have unf: "insertPoint n t v =
      (if Timestamp (ps ! idx) = TS t
       then Some (Node (level n) (key n) (isLeaf n) (dirty n) (pointers n)
                    (ps[idx := (ps ! idx)\<lparr>Value := v\<rparr>]))
       else Some (Node (level n) (key n) (isLeaf n) (dirty n) (pointers n)
                    (take idx ps @ [\<lparr>Timestamp = TS t, Value = v\<rparr>] @ drop idx ps)))"
  proof -
    have "Search (length (points n)) (\<lambda>i. sint (TS t) \<le> sint (Timestamp (points n ! i))) = idx"
      by (simp add: idx_def f_def ps_def)
    then show ?thesis using idx_lt
      by (simp add: insertPoint_def Let_def ps_def [symmetric] del: Search_loop.simps)
  qed
  let ?new = "\<lparr>Timestamp = TS t, Value = v\<rparr>"
  show ?thesis
  proof (cases "Timestamp (ps ! idx) = TS t")
    case True
    let ?ps' = "ps[idx := (ps ! idx)\<lparr>Value := v\<rparr>]"
    have new: "(ps ! idx)\<lparr>Value := v\<rparr> = ?new" using True by simp
    have tsmap: "map Timestamp ?ps' = map Timestamp ps"
      by (simp add: map_update list_update_same_conv idx_lt)
    have "sorted_wrt (\<lambda>p q. sint (Timestamp p) < sint (Timestamp q)) ?ps'
            = sorted_wrt (\<lambda>a b. sint a < sint b) (map Timestamp ?ps')"
      by (simp add: sorted_wrt_map)
    also have "\<dots> = sorted_wrt (\<lambda>p q. sint (Timestamp p) < sint (Timestamp q)) ps"
      by (simp add: tsmap sorted_wrt_map)
    finally have srt': "ts_sorted ?ps'" using s by (simp add: ts_sorted_def)
    have mem: "?new \<in> set ?ps'" using idx_lt new by (metis set_update_memI)
    have sub: "set ?ps' \<subseteq> insert ?new (set ps)" using new by (metis set_update_subset_insert)
    have keep: "p \<in> set ?ps'" if pin: "p \<in> set ps" and pne: "Timestamp p \<noteq> TS t" for p
    proof -
      obtain i where i: "i < length ps" "ps ! i = p" using pin by (auto simp: in_set_conv_nth)
      then have "i \<noteq> idx" using pne True by auto
      then have "?ps' ! i = p" using i by simp
      then show ?thesis using i(1) by (metis length_list_update nth_mem)
    qed
    have "TS t \<in> Timestamp ` set ps" using True idx_lt by (metis imageI nth_mem)
    then show ?thesis using True unf srt' mem sub keep by (simp add: ps_def)
  next
    case False
    let ?ps' = "take idx ps @ [?new] @ drop idx ps"
    have gt: "sint (TS t) < sint (Timestamp (ps ! idx))"
      using at False by (metis order_le_less signed_word_eqI)
    have above: "sint (TS t) < sint (Timestamp (ps ! x))" if "idx \<le> x" "x < length ps" for x
    proof (cases "x = idx")
      case True then show ?thesis using gt by simp
    next
      case False
      then show ?thesis using lt [of idx x] that gt by simp
    qed
    have t1: "\<forall>p \<in> set (take idx ps). sint (Timestamp p) < sint (TS t)"
      using below idx_lt by (auto simp: in_set_conv_nth)
    have t2: "\<forall>p \<in> set (drop idx ps). sint (TS t) < sint (Timestamp p)"
    proof
      fix p assume "p \<in> set (drop idx ps)"
      then obtain i where "i < length ps - idx" "drop idx ps ! i = p"
        by (auto simp: in_set_conv_nth)
      then show "sint (TS t) < sint (Timestamp p)" using above [of "idx + i"] by auto
    qed
    have s1: "sorted_wrt (\<lambda>p q. sint (Timestamp p) < sint (Timestamp q)) (take idx ps)"
      using s by (rule sorted_wrt_take)
    have s2: "sorted_wrt (\<lambda>p q. sint (Timestamp p) < sint (Timestamp q)) (drop idx ps)"
      using s by (rule sorted_wrt_drop)
    have srt': "ts_sorted ?ps'"
      unfolding ts_sorted_def using s1 s2 t1 t2 by (fastforce simp: sorted_wrt_append)
    have notin: "TS t \<notin> Timestamp ` set ps"
    proof
      assume "TS t \<in> Timestamp ` set ps"
      then obtain i where i: "i < length ps" "Timestamp (ps ! i) = TS t"
        by (auto simp: in_set_conv_nth)
      show False
      proof (cases "i < idx")
        case True
        then show ?thesis using below [of i] i by simp
      next
        case False
        then show ?thesis using above [of i] i by simp
      qed
    qed
    have sets: "set ?ps' = insert ?new (set ps)"
    proof -
      have "set (take idx ps) \<union> set (drop idx ps) = set ps" by (metis append_take_drop_id set_append)
      then show ?thesis by auto
    qed
    have len: "length ?ps' = length ps + 1" using idx_lt by simp
    show ?thesis using False unf srt' sets notin len by (simp add: ps_def)
  qed
qed

text \<open>
  C3. On a leaf whose points are strictly sorted by timestamp, \<open>insertPoint\<close> panics
  when every point is below the new timestamp, the leaf without points included: the
  search returns the length and \<open>n.points[index]\<close> is read out of range. When some
  point is at or above the new timestamp, it returns with the point stored: an equal
  timestamp has its value map overwritten, otherwise the point is inserted, and the
  points stay strictly sorted.
\<close>

theorem insertPoint_partial:
  fixes n :: "'f node"
  assumes "ts_sorted (points n)"
  shows "((\<forall>p \<in> set (points n). sint (Timestamp p) < sint (TS t)) \<longrightarrow> insertPoint n t v = None)
       \<and> ((\<exists>p \<in> set (points n). sint (TS t) \<le> sint (Timestamp p)) \<longrightarrow>
            (\<exists>n'. insertPoint n t v = Some n'
               \<and> ts_sorted (points n')
               \<and> \<lparr>Timestamp = TS t, Value = v\<rparr> \<in> set (points n')
               \<and> set (points n') \<subseteq> insert \<lparr>Timestamp = TS t, Value = v\<rparr> (set (points n))
               \<and> (\<forall>p \<in> set (points n). Timestamp p \<noteq> TS t \<longrightarrow> p \<in> set (points n'))
               \<and> length (points n') =
                   (if TS t \<in> Timestamp ` set (points n) then length (points n)
                    else length (points n) + 1)))"
proof (intro conjI impI)
  assume "\<forall>p \<in> set (points n). sint (Timestamp p) < sint (TS t)"
  then show "insertPoint n t v = None" by (rule insertPoint_beyond_last_panics)
next
  assume "\<exists>p \<in> set (points n). sint (TS t) \<le> sint (Timestamp p)"
  from insertPoint_in_range [OF assms this, of v]
  show "\<exists>n'. insertPoint n t v = Some n'
               \<and> ts_sorted (points n')
               \<and> \<lparr>Timestamp = TS t, Value = v\<rparr> \<in> set (points n')
               \<and> set (points n') \<subseteq> insert \<lparr>Timestamp = TS t, Value = v\<rparr> (set (points n))
               \<and> (\<forall>p \<in> set (points n). Timestamp p \<noteq> TS t \<longrightarrow> p \<in> set (points n'))
               \<and> length (points n') =
                   (if TS t \<in> Timestamp ` set (points n) then length (points n)
                    else length (points n) + 1)"
    by blast
qed

theorem insertPoint_partial_witness:
  "insertPoint (Node LevelSecond 0 True 0 [] ([] :: real Point list))
      \<lparr>TS = 3, Level = LevelSecond, Timestamp_UnixNano = (\<lambda>l. 3)\<rparr> [''x'' \<mapsto> 7] = None
   \<and> insertPoint (Node LevelSecond 0 True 0 []
        [\<lparr>Timestamp = 1, Value = [''x'' \<mapsto> (10::real)]\<rparr>, \<lparr>Timestamp = 5, Value = [''x'' \<mapsto> 50]\<rparr>])
      \<lparr>TS = 9, Level = LevelSecond, Timestamp_UnixNano = (\<lambda>l. 9)\<rparr> [''x'' \<mapsto> 7] = None
   \<and> (\<exists>n'. insertPoint (Node LevelSecond 0 True 0 []
        [\<lparr>Timestamp = 1, Value = [''x'' \<mapsto> (10::real)]\<rparr>, \<lparr>Timestamp = 5, Value = [''x'' \<mapsto> 50]\<rparr>])
      \<lparr>TS = 3, Level = LevelSecond, Timestamp_UnixNano = (\<lambda>l. 3)\<rparr> [''x'' \<mapsto> 7] = Some n'
      \<and> length (points n') = 3 \<and> ts_sorted (points n')
      \<and> \<lparr>Timestamp = 3, Value = [''x'' \<mapsto> 7]\<rparr> \<in> set (points n'))
   \<and> (\<exists>n'. insertPoint (Node LevelSecond 0 True 0 []
        [\<lparr>Timestamp = 1, Value = [''x'' \<mapsto> (10::real)]\<rparr>, \<lparr>Timestamp = 5, Value = [''x'' \<mapsto> 50]\<rparr>])
      \<lparr>TS = 5, Level = LevelSecond, Timestamp_UnixNano = (\<lambda>l. 5)\<rparr> [''x'' \<mapsto> 7] = Some n'
      \<and> length (points n') = 2 \<and> ts_sorted (points n')
      \<and> \<lparr>Timestamp = 5, Value = [''x'' \<mapsto> 7]\<rparr> \<in> set (points n'))"
proof -
  let ?e = "Node LevelSecond 0 True 0 [] ([] :: real Point list)"
  let ?l = "Node LevelSecond 0 True 0 []
        [\<lparr>Timestamp = 1, Value = [''x'' \<mapsto> (10::real)]\<rparr>, \<lparr>Timestamp = 5, Value = [''x'' \<mapsto> 50]\<rparr>]"
  let ?t = "\<lambda>k. \<lparr>TS = k, Level = LevelSecond, Timestamp_UnixNano = (\<lambda>l. k)\<rparr>"
  have se: "ts_sorted (points ?e)" by (simp add: ts_sorted_def)
  have sl: "ts_sorted (points ?l)" by (simp add: ts_sorted_def)
  have a: "insertPoint ?e (?t 3) [''x'' \<mapsto> 7] = None"
    using insertPoint_partial [OF se, of "?t 3" "[''x'' \<mapsto> 7]"] by simp
  have b: "insertPoint ?l (?t 9) [''x'' \<mapsto> 7] = None"
    using insertPoint_partial [OF sl, of "?t 9" "[''x'' \<mapsto> 7]"] by simp
  have c: "\<exists>n'. insertPoint ?l (?t 3) [''x'' \<mapsto> 7] = Some n'
      \<and> length (points n') = 3 \<and> ts_sorted (points n')
      \<and> \<lparr>Timestamp = 3, Value = [''x'' \<mapsto> 7]\<rparr> \<in> set (points n')"
    using insertPoint_partial [OF sl, of "?t 3" "[''x'' \<mapsto> 7]"] by auto
  have d: "\<exists>n'. insertPoint ?l (?t 5) [''x'' \<mapsto> 7] = Some n'
      \<and> length (points n') = 2 \<and> ts_sorted (points n')
      \<and> \<lparr>Timestamp = 5, Value = [''x'' \<mapsto> 7]\<rparr> \<in> set (points n')"
    using insertPoint_partial [OF sl, of "?t 5" "[''x'' \<mapsto> 7]"] by auto
  show ?thesis using a b c d by blast
qed

subsection \<open>reduce and flush, one call at a time\<close>

lemma reduce_leaf:
  "isLeaf n \<Longrightarrow> reduce n = Some (n, leaf_loop (length (points n)) 0 (points n) Map.empty)"
  by (subst reduce.simps) (simp del: reduce.simps)

lemma reduce_out_of_range:
  "\<not> isLeaf n \<Longrightarrow> dirty n < 0 \<or> int (length (pointers n)) \<le> dirty n \<Longrightarrow> reduce n = None"
  by (subst reduce.simps) (simp del: reduce.simps)

lemma reduce_nil_child:
  "\<not> isLeaf n \<Longrightarrow> pointer (pointers n ! nat (dirty n)) = None \<Longrightarrow> reduce n = None"
  by (subst reduce.simps) (simp del: reduce.simps add: Let_def)

lemma reduce_interior:
  assumes "\<not> isLeaf n" and "0 \<le> dirty n" and "dirty n < int (length (pointers n))"
    and "pointer (pointers n ! nat (dirty n)) = Some child"
  shows "reduce n =
     (case reduce child of
        None \<Rightarrow> None
      | Some (child', cv) \<Rightarrow>
          Some (Node (level n) (key n) (isLeaf n) (dirty n)
                  ((pointers n)[nat (dirty n) :=
                     NodePointer (np_key (pointers n ! nat (dirty n)))
                       (pos (pointers n ! nat (dirty n))) (Some child') cv])
                  (points n),
                interior_loop (length (pointers n)) 0
                  ((pointers n)[nat (dirty n) :=
                     NodePointer (np_key (pointers n ! nat (dirty n)))
                       (pos (pointers n ! nat (dirty n))) (Some child') cv])
                  Map.empty))"
  using assms by (subst reduce.simps) (simp del: reduce.simps add: Let_def split: option.splits)

lemma reduce_total_iff:
  fixes n :: "'f::{plus,ord} node"
  shows "reduce n \<noteq> None \<longleftrightarrow> dirty_ok n"
proof
  show "dirty_ok n \<Longrightarrow> reduce n \<noteq> None"
  proof (induction rule: dirty_ok.induct)
    case (leaf n)
    then show ?case by (simp add: reduce_leaf del: reduce.simps)
  next
    case (interior n child)
    then obtain r where "reduce child = Some r" by blast
    then show ?case using interior.hyps
      by (cases r) (simp add: reduce_interior del: reduce.simps)
  qed
next
  show "reduce n \<noteq> None \<Longrightarrow> dirty_ok n"
  proof (induction n rule: reduce.induct)
    case (1 n)
    show ?case
    proof (cases "isLeaf n")
      case True
      then show ?thesis by (rule dirty_ok.leaf)
    next
      case False
      have r: "\<not> (dirty n < 0 \<or> int (length (pointers n)) \<le> dirty n)"
      proof
        assume "dirty n < 0 \<or> int (length (pointers n)) \<le> dirty n"
        then have "reduce n = None" by (rule reduce_out_of_range [OF False])
        then show False using "1.prems" by (simp del: reduce.simps)
      qed
      obtain child where c: "pointer (pointers n ! nat (dirty n)) = Some child"
      proof (cases "pointer (pointers n ! nat (dirty n))")
        case None
        then have "reduce n = None" by (rule reduce_nil_child [OF False])
        then show ?thesis using "1.prems" by (simp del: reduce.simps)
      next
        case (Some a)
        then show ?thesis using that by blast
      qed
      have "reduce child \<noteq> None"
      proof
        assume "reduce child = None"
        then have "reduce n = None" using False r c by (simp add: reduce_interior del: reduce.simps)
        then show False using "1.prems" by (simp del: reduce.simps)
      qed
      then have "dirty_ok child" by (rule "1.IH" [OF False r refl c])
      then show ?thesis using False r c
        by (intro dirty_ok.interior [of n child]) simp_all
    qed
  qed
qed

lemma flush_leaf: "isLeaf n \<Longrightarrow> flush c wc n w = Some (write_node c wc n w)"
  by (subst flush.simps) (simp del: flush.simps)

lemma flush_out_of_range:
  "\<not> isLeaf n \<Longrightarrow> dirty n < 0 \<or> int (length (pointers n)) \<le> dirty n \<Longrightarrow>
   flush c wc n w = None"
  by (subst flush.simps) (simp del: flush.simps)

lemma flush_nil_child:
  "\<not> isLeaf n \<Longrightarrow> pointer (pointers n ! nat (dirty n)) = None \<Longrightarrow> flush c wc n w = None"
  by (subst flush.simps) (simp del: flush.simps add: Let_def)

lemma flush_interior:
  assumes "\<not> isLeaf n" and "0 \<le> dirty n" and "dirty n < int (length (pointers n))"
    and "pointer (pointers n ! nat (dirty n)) = Some child"
  shows "flush c wc n w =
     (case flush c wc child w of
        None \<Rightarrow> None
      | Some (child', cpos, w') \<Rightarrow>
          Some (write_node c wc
                  (Node (level n) (key n) (isLeaf n) (dirty n)
                     ((pointers n)[nat (dirty n) :=
                        NodePointer (np_key (pointers n ! nat (dirty n))) cpos (Some child')
                          (np_value (pointers n ! nat (dirty n)))])
                     (points n)) w'))"
  using assms by (subst flush.simps) (simp del: flush.simps add: Let_def split: option.splits)

lemma flush_total_iff: "flush c wc n w \<noteq> None \<longleftrightarrow> dirty_ok n"
proof
  show "dirty_ok n \<Longrightarrow> flush c wc n w \<noteq> None"
  proof (induction arbitrary: w rule: dirty_ok.induct)
    case (leaf n)
    then show ?case by (simp add: flush_leaf del: flush.simps)
  next
    case (interior n child)
    obtain r where "flush c wc child w = Some r" using interior.IH [of w] by blast
    then show ?case using interior.hyps
      by (cases r) (simp add: flush_interior del: flush.simps)
  qed
next
  show "flush c wc n w \<noteq> None \<Longrightarrow> dirty_ok n"
  proof (induction c wc n w rule: flush.induct)
    case (1 c wc n w)
    show ?case
    proof (cases "isLeaf n")
      case True
      then show ?thesis by (rule dirty_ok.leaf)
    next
      case False
      have r: "\<not> (dirty n < 0 \<or> int (length (pointers n)) \<le> dirty n)"
      proof
        assume "dirty n < 0 \<or> int (length (pointers n)) \<le> dirty n"
        then have "flush c wc n w = None" by (rule flush_out_of_range [OF False])
        then show False using "1.prems" by (simp del: flush.simps)
      qed
      obtain child where ch: "pointer (pointers n ! nat (dirty n)) = Some child"
      proof (cases "pointer (pointers n ! nat (dirty n))")
        case None
        then have "flush c wc n w = None" by (rule flush_nil_child [OF False])
        then show ?thesis using "1.prems" by (simp del: flush.simps)
      next
        case (Some a)
        then show ?thesis using that by blast
      qed
      have "flush c wc child w \<noteq> None"
      proof
        assume "flush c wc child w = None"
        then have "flush c wc n w = None" using False r ch
          by (simp add: flush_interior del: flush.simps)
        then show False using "1.prems" by (simp del: flush.simps)
      qed
      then have "dirty_ok child" by (rule "1.IH" [OF False r refl ch])
      then show ?thesis using False r ch
        by (intro dirty_ok.interior [of n child]) simp_all
    qed
  qed
qed

subsection \<open>Leaf reduce\<close>

lemma leaf_entry_spec:
  fixes v :: "'f::{plus,ord}"
  assumes irr: "\<forall>x::'f. \<not> x < x" and tr: "\<forall>x y z::'f. x < y \<longrightarrow> y < z \<longrightarrow> x < z"
    and o: "ordered_v cur"
  shows "leaf_entry len index v cur = spec_leaf_step (Suc index = len) v cur
         \<and> ordered_v (Some (leaf_entry len index v cur))"
proof (cases cur)
  case None
  then show ?thesis by (simp add: leaf_entry_def spec_leaf_step_def ordered_v_def)
next
  case (Some a)
  have fin: "(int index = int len - 1) = (Suc index = len)" by auto
  have mm: "min_v a = max_v a \<or> min_v a < max_v a" using o Some by (simp add: ordered_v_def)
  have no: "\<not> v < min_v a" if "max_v a < v"
  proof
    assume "v < min_v a"
    then have "v < max_v a" using mm tr by metis
    then have "v < v" using that tr by metis
    then show False using irr by simp
  qed
  show ?thesis
  proof (cases "max_v a < v")
    case True
    have "min_v a < v" using mm True tr by metis
    then show ?thesis using True no Some
      by (simp add: leaf_entry_def spec_leaf_step_def ordered_v_def Let_def fin)
  next
    case False
    show ?thesis
    proof (cases "v < min_v a")
      case True
      have "v < max_v a" using mm True tr by metis
      then show ?thesis using True False Some
        by (simp add: leaf_entry_def spec_leaf_step_def ordered_v_def Let_def fin)
    next
      case nf: False
      then show ?thesis using False Some mm
        by (simp add: leaf_entry_def spec_leaf_step_def ordered_v_def Let_def fin)
    qed
  qed
qed

lemma leaf_loop_spec:
  fixes val :: "string \<rightharpoonup> 'f::{plus,ord} Value"
  assumes irr: "\<forall>x::'f. \<not> x < x" and tr: "\<forall>x y z::'f. x < y \<longrightarrow> y < z \<longrightarrow> x < z"
  shows "ordered_v (val k) \<Longrightarrow> len = index + length ps \<Longrightarrow>
         leaf_loop len index ps val k = spec_leaf_metric k ps (val k)"
proof (induction ps arbitrary: index val)
  case Nil
  then show ?case by simp
next
  case (Cons p ps)
  have fin: "(Suc index = len) = (ps = [])" using Cons.prems(2) by auto
  show ?case
  proof (cases "Value p k")
    case None
    have e: "leaf_point len index p val k = val k" by (simp add: leaf_point_def None)
    have o': "ordered_v (leaf_point len index p val k)" using e Cons.prems(1) by simp
    have l': "len = (index + 1) + length ps" using Cons.prems(2) by simp
    have "leaf_loop len (index + 1) ps (leaf_point len index p val) k
            = spec_leaf_metric k ps (leaf_point len index p val k)"
      by (rule Cons.IH [of "leaf_point len index p val" "index + 1", OF o' l'])
    then show ?thesis using e None by simp
  next
    case (Some v)
    have e: "leaf_point len index p val k = Some (leaf_entry len index v (val k))"
      by (simp add: leaf_point_def Some)
    note le = leaf_entry_spec [OF irr tr Cons.prems(1), of len index v]
    have o': "ordered_v (leaf_point len index p val k)" unfolding e using le by blast
    have l': "len = (index + 1) + length ps" using Cons.prems(2) by simp
    have e': "leaf_point len index p val k = Some (spec_leaf_step (ps = []) v (val k))"
      unfolding e using le fin by simp
    have "leaf_loop len (index + 1) ps (leaf_point len index p val) k
            = spec_leaf_metric k ps (leaf_point len index p val k)"
      by (rule Cons.IH [of "leaf_point len index p val" "index + 1", OF o' l'])
    then show ?thesis using e' Some by simp
  qed
qed

text \<open>
  C5. On a leaf, \<open>reduce\<close> leaves the node as it is and returns, for every metric, the
  fold of the specification over the points in order. The hypotheses are the two laws of
  a strict order, which the comparison of \<open>float64\<close> satisfies (NaN included): they make
  the \<open>else if\<close> between the update of the maximum and that of the minimum harmless.
\<close>

theorem leaf_reduce_spec:
  fixes n :: "'f::{plus,ord} node"
  assumes "isLeaf n"
    and "\<forall>x::'f. \<not> x < x" and "\<forall>x y z::'f. x < y \<longrightarrow> y < z \<longrightarrow> x < z"
  shows "\<exists>agg. reduce n = Some (n, agg) \<and> (\<forall>k. agg k = spec_leaf_metric k (points n) None)"
proof -
  have "leaf_loop (length (points n)) 0 (points n) Map.empty k
          = spec_leaf_metric k (points n) None" for k
    using leaf_loop_spec [OF assms(2,3), of "Map.empty" k "length (points n)" 0 "points n"]
    by (simp add: ordered_v_def)
  then show ?thesis using assms(1) by (simp add: reduce_leaf)
qed

theorem leaf_reduce_spec_witness:
  "\<exists>agg. reduce (Node LevelSecond 0 True 0 []
             [\<lparr>Timestamp = 1, Value = [''x'' \<mapsto> 10]\<rparr>, \<lparr>Timestamp = 2, Value = [''x'' \<mapsto> 20]\<rparr>,
              \<lparr>Timestamp = 3, Value = [''x'' \<mapsto> (30::real)]\<rparr>])
          = Some (Node LevelSecond 0 True 0 []
             [\<lparr>Timestamp = 1, Value = [''x'' \<mapsto> 10]\<rparr>, \<lparr>Timestamp = 2, Value = [''x'' \<mapsto> 20]\<rparr>,
              \<lparr>Timestamp = 3, Value = [''x'' \<mapsto> 30]\<rparr>], agg)
        \<and> agg ''x'' = Some \<lparr>sum_v = 60, max_v = 30, min_v = 10, first = 10, last_v = 30,
                            count = 3\<rparr>
        \<and> agg ''y'' = None"
proof -
  let ?n = "Node LevelSecond 0 True 0 []
             [\<lparr>Timestamp = 1, Value = [''x'' \<mapsto> 10]\<rparr>, \<lparr>Timestamp = 2, Value = [''x'' \<mapsto> 20]\<rparr>,
              \<lparr>Timestamp = 3, Value = [''x'' \<mapsto> (30::real)]\<rparr>]"
  have l: "isLeaf ?n" by simp
  have irr: "\<forall>x::real. \<not> x < x" by simp
  have tr: "\<forall>x y z::real. x < y \<longrightarrow> y < z \<longrightarrow> x < z" by auto
  obtain agg where a: "reduce ?n = Some (?n, agg)"
      "\<forall>k. agg k = spec_leaf_metric k (points ?n) None"
    using leaf_reduce_spec [OF l irr tr] by blast
  have "agg ''x'' = Some \<lparr>sum_v = 60, max_v = 30, min_v = 10, first = 10, last_v = 30,
                            count = 3\<rparr>"
    using a(2) by (simp add: spec_leaf_step_def)
  moreover have "agg ''y'' = None" using a(2) by simp
  ultimately show ?thesis using a(1) by blast
qed

subsection \<open>Interior reduce\<close>

text \<open>
  With a linear order, one step of the interior fold adds the sums and the counts and
  keeps the larger maximum, and it keeps the larger minimum too.
\<close>

lemma interior_entry_fields:
  fixes v :: "'f::{plus,linorder} Value"
  shows "interior_entry len index v (Some a) =
     \<lparr>sum_v = sum_v a + sum_v v, max_v = max (max_v a) (max_v v),
      min_v = max (min_v a) (min_v v), first = first a,
      last_v = (if Suc index = len then last_v v else last_v a),
      count = count a + count v\<rparr>"
proof -
  have "(int index = int len - 1) = (Suc index = len)" by auto
  then show ?thesis by (simp add: interior_entry_def Let_def max_def)
qed

text \<open>
  C2. An interior node with two children whose cached minima are 1 and 5: \<open>reduce\<close>
  refreshes the dirty pointer (index 1) from its leaf and folds the two cached values;
  the sum is 6, the maximum 5 and the count 2, but the minimum is 5, not 1: the fold
  keeps the larger of the children's minima.
\<close>

theorem interior_reduce_min_is_largest:
  "\<exists>n' agg. reduce (Node LevelRoot 0 False 1
             [NodePointer 10 0
                (Some (Node LevelYear 0 True 0 [] [\<lparr>Timestamp = 10, Value = [''x'' \<mapsto> 1]\<rparr>]))
                [''x'' \<mapsto> \<lparr>sum_v = 1, max_v = 1, min_v = 1, first = 1, last_v = 1, count = 1\<rparr>],
              NodePointer 20 0
                (Some (Node LevelYear 0 True 0 [] [\<lparr>Timestamp = 20, Value = [''x'' \<mapsto> (5::real)]\<rparr>]))
                Map.empty] [])
        = Some (n', agg)
      \<and> np_value (pointers n' ! 1) ''x''
          = Some \<lparr>sum_v = 5, max_v = 5, min_v = 5, first = 5, last_v = 5, count = 1\<rparr>
      \<and> np_value (pointers n' ! 0) ''x''
          = Some \<lparr>sum_v = 1, max_v = 1, min_v = 1, first = 1, last_v = 1, count = 1\<rparr>
      \<and> agg ''x'' = Some \<lparr>sum_v = 6, max_v = 5, min_v = 5, first = 1, last_v = 5, count = 2\<rparr>"
proof -
  let ?c1 = "Node LevelYear 0 True 0 [] [\<lparr>Timestamp = 20, Value = [''x'' \<mapsto> (5::real)]\<rparr>]"
  let ?n = "Node LevelRoot 0 False 1
             [NodePointer 10 0
                (Some (Node LevelYear 0 True 0 [] [\<lparr>Timestamp = 10, Value = [''x'' \<mapsto> 1]\<rparr>]))
                [''x'' \<mapsto> \<lparr>sum_v = 1, max_v = 1, min_v = 1, first = 1, last_v = 1, count = 1\<rparr>],
              NodePointer 20 0 (Some ?c1) Map.empty] []"
  show ?thesis
    by (simp add: reduce_interior [where child = ?c1] reduce_leaf leaf_point_def leaf_entry_def
          interior_pointer_def interior_entry_def del: reduce.simps)
qed

subsection \<open>The dirty index\<close>

text \<open>
  C10. On an interior node, \<open>reduce\<close> and \<open>flush\<close> return only when the dirty index
  is within the pointer list, and return exactly on the nodes whose chain of dirty
  pointers is valid down to a leaf. A node fresh from \<open>newInteriorNode\<close> is interior,
  has the dirty index -1 and no pointers: both functions panic on it.
\<close>

theorem dirty_index_precondition:
  fixes n :: "'f::{plus,ord} node"
  shows "(\<not> isLeaf n \<and> reduce n \<noteq> None \<longrightarrow> 0 \<le> dirty n \<and> dirty n < int (length (pointers n)))
       \<and> (\<not> isLeaf n \<and> flush c wc n w \<noteq> None \<longrightarrow>
            0 \<le> dirty n \<and> dirty n < int (length (pointers n)))
       \<and> (reduce n \<noteq> None \<longleftrightarrow> dirty_ok n)
       \<and> (flush c wc n w \<noteq> None \<longleftrightarrow> dirty_ok n)
       \<and> \<not> isLeaf (newInteriorNode :: 'f node)
       \<and> dirty (newInteriorNode :: 'f node) = - 1
       \<and> pointers (newInteriorNode :: 'f node) = []
       \<and> reduce (newInteriorNode :: 'f node) = None
       \<and> flush c wc (newInteriorNode :: 'f node) w = None"
proof -
  have a: "0 \<le> dirty n \<and> dirty n < int (length (pointers n))"
    if "\<not> isLeaf n" "reduce n \<noteq> None"
    using that reduce_out_of_range [of n] by (metis not_less)
  have b: "0 \<le> dirty n \<and> dirty n < int (length (pointers n))"
    if "\<not> isLeaf n" "flush c wc n w \<noteq> None"
    using that flush_out_of_range [of n c wc w] by (metis not_less)
  have f: "\<not> isLeaf (newInteriorNode :: 'f node)" "dirty (newInteriorNode :: 'f node) = - 1"
    "pointers (newInteriorNode :: 'f node) = []"
    by (simp_all add: newInteriorNode_def)
  have r: "reduce (newInteriorNode :: 'f node) = None"
    by (rule reduce_out_of_range) (simp_all add: f)
  have fl: "flush c wc (newInteriorNode :: 'f node) w = None"
    by (rule flush_out_of_range) (simp_all add: f)
  show ?thesis
    using a b f r fl reduce_total_iff [of n] flush_total_iff [of c wc n w] by blast
qed

theorem dirty_index_precondition_witness:
  "reduce (Node LevelRoot 0 False 0
     [NodePointer 7 0 (Some (Node LevelYear 0 True 0 [] [\<lparr>Timestamp = 7, Value = [''x'' \<mapsto> (3 :: 64 word)]\<rparr>]))
        Map.empty] []) \<noteq> None
   \<and> flush le_codec chunk_at (Node LevelRoot 0 False 0
     [NodePointer 7 0 (Some (Node LevelYear 0 True 0 [] [\<lparr>Timestamp = 7, Value = [''x'' \<mapsto> (3 :: 64 word)]\<rparr>]))
        Map.empty] []) ([] :: unit list) \<noteq> None
   \<and> reduce (Node LevelRoot 0 False 1
     [NodePointer 7 0 (Some (Node LevelYear 0 True 0 [] [\<lparr>Timestamp = 7, Value = [''x'' \<mapsto> (3 :: 64 word)]\<rparr>]))
        Map.empty] []) = None
   \<and> flush le_codec chunk_at (Node LevelRoot 0 False (- 1)
     [NodePointer 7 0 (Some (Node LevelYear 0 True 0 [] [\<lparr>Timestamp = 7, Value = [''x'' \<mapsto> (3 :: 64 word)]\<rparr>]))
        Map.empty] []) ([] :: unit list) = None"
proof -
  let ?leaf = "Node LevelYear 0 True 0 [] [\<lparr>Timestamp = 7, Value = [''x'' \<mapsto> (3 :: 64 word)]\<rparr>]"
  let ?n = "\<lambda>d. Node LevelRoot 0 False d [NodePointer 7 0 (Some ?leaf) Map.empty] []"
  have "dirty_ok ?leaf" by (rule dirty_ok.leaf) simp
  then have ok: "dirty_ok (?n 0)" by (intro dirty_ok.interior [of "?n 0" ?leaf]) simp_all
  have a: "reduce (?n 0) \<noteq> None"
    using dirty_index_precondition [of "?n 0" le_codec chunk_at "[] :: unit list"] ok by blast
  have b: "flush le_codec chunk_at (?n 0) ([] :: unit list) \<noteq> None"
    using dirty_index_precondition [of "?n 0" le_codec chunk_at "[] :: unit list"] ok by blast
  have c: "reduce (?n 1) = None"
    using dirty_index_precondition [of "?n 1" le_codec chunk_at "[] :: unit list"]
    by (cases "reduce (?n 1)") (simp_all del: reduce.simps)
  have d: "flush le_codec chunk_at (?n (- 1)) ([] :: unit list) = None"
    using dirty_index_precondition [of "?n (- 1)" le_codec chunk_at "[] :: unit list"]
    by (cases "flush le_codec chunk_at (?n (- 1)) ([] :: unit list)") (simp_all del: flush.simps)
  show ?thesis using a b c d by blast
qed

end
